theory Spec2Isabelle
  imports Main
begin

section \<open>JavaScript strings and the regular expressions of stylesPlugin.ts\<close>

text \<open>
  Identifiers and paths are JavaScript strings, modelled as \<open>string\<close>. The characters the
  plugin inspects are all ASCII; the NUL character of the private id prefixes is
  \<open>CHR 0x00\<close>.
\<close>

definition startsWith :: "string \<Rightarrow> string \<Rightarrow> bool" where
  "startsWith s p = (take (length p) s = p)"

definition endsWith :: "string \<Rightarrow> string \<Rightarrow> bool" where
  "endsWith s p = (length p \<le> length s \<and> drop (length s - length p) s = p)"

definition slice :: "string \<Rightarrow> nat \<Rightarrow> string" where
  "slice s n = drop n s"

text \<open>The class \<open>\w\<close> of a JavaScript regular expression: \<open>[A-Za-z0-9_]\<close>.\<close>

definition word_char :: "char \<Rightarrow> bool" where
  "word_char c =
     (let n = (of_char c :: nat)
      in (48 \<le> n \<and> n \<le> 57) \<or> (65 \<le> n \<and> n \<le> 90) \<or> n = 95 \<or> (97 \<le> n \<and> n \<le> 122))"

text \<open>
  The dot of a regular expression (without the \<open>s\<close> flag) matches every character but a
  line terminator: line feed and carriage return (and U+2028, U+2029, which lie outside
  the characters modelled here).
\<close>

definition line_terminator :: "char \<Rightarrow> bool" where
  "line_terminator c = (c = CHR 0x0A \<or> c = CHR 0x0D)"

definition dots :: "string \<Rightarrow> bool" where
  "dots s = (\<forall>c \<in> set s. \<not> line_terminator c)"

text \<open>\<open>/\w\.(s[ac]|c)ss/.test(id)\<close>, lines 38 and 55: the pattern is not anchored.\<close>

fun stylesheet_re :: "string \<Rightarrow> bool" where
  "stylesheet_re [] = False"
| "stylesheet_re (c # rest) =
     ((word_char c \<and>
        (startsWith rest ''.sass'' \<or> startsWith rest ''.scss'' \<or> startsWith rest ''.css''))
      \<or> stylesheet_re rest)"

text \<open>\<open>/\/node_modules\/\.vite\/deps\/(?!vuetify[._])/.test(k)\<close>, line 57.\<close>

fun deps_re :: "string \<Rightarrow> bool" where
  "deps_re [] = False"
| "deps_re (c # rest) =
     ((startsWith (c # rest) ''/node_modules/.vite/deps/'' \<and>
        \<not> startsWith (drop 25 (c # rest)) ''vuetify.'' \<and>
        \<not> startsWith (drop 25 (c # rest)) ''vuetify_'')
      \<or> deps_re rest)"

text \<open>\<open>s.replace(/\.css$/, '.sass')\<close>, lines 163, 169 and 187.\<close>

definition replace_css_sass :: "string \<Rightarrow> string" where
  "replace_css_sass s =
     (if endsWith s ''.css'' then take (length s - 4) s @ ''.sass'' else s)"

text \<open>The sentinel of suppressed content, \<open>'\0__void__'\<close>.\<close>

definition void_id :: string where
  "void_id = CHR 0x00 # ''__void__''"

text \<open>\<open>/^\0__void__(\?.*)?$/.test(id)\<close>, line 224.\<close>

definition void_re :: "string \<Rightarrow> bool" where
  "void_re s =
     (s = void_id \<or>
      (startsWith s (void_id @ ''?'') \<and> dots (drop (length void_id + 1) s)))"

text \<open>
  \<open>/^\0plugin-vuetify:(.*?)(\?.*)?$/.exec(id)\<close>, line 229: the first group, or \<open>None\<close>
  when the expression does not match (\<open>exec\<close> returns \<open>null\<close>). \<open>lazy_group\<close> follows the
  matcher on the text after the colon: the lazy group grows one character at a time
  until the rest is empty or is a query whose characters the dot accepts.
\<close>

fun lazy_group :: "string \<Rightarrow> string option" where
  "lazy_group [] = Some []"
| "lazy_group (c # cs) =
     (if c = CHR ''?'' \<and> dots cs then Some []
      else if line_terminator c then None
      else map_option ((#) c) (lazy_group cs))"

definition plugin_prefix :: string where
  "plugin_prefix = CHR 0x00 # ''plugin-vuetify''"

definition plugin_re_exec :: "string \<Rightarrow> string option" where
  "plugin_re_exec s =
     (if startsWith s (plugin_prefix @ '':'')
      then lazy_group (drop (length plugin_prefix + 1) s)
      else None)"

section \<open>The path functions of upath (POSIX)\<close>

text \<open>
  \<open>upath\<close> wraps Node's \<open>path\<close> module and turns every backslash into a slash. The
  functions below follow Node's POSIX algorithms on the segments of a path;
  \<open>cwd\<close> is the working directory of the process, which \<open>path.relative\<close> consults for a
  path that is not absolute.
\<close>

definition toUnix :: "string \<Rightarrow> string" where
  "toUnix s = map (\<lambda>c. if c = CHR 0x5C then CHR ''/'' else c) s"

fun split_path :: "string \<Rightarrow> string \<Rightarrow> string list" where
  "split_path acc [] = [acc]"
| "split_path acc (c # cs) =
     (if c = CHR ''/'' then acc # split_path [] cs else split_path (acc @ [c]) cs)"

fun join_segs :: "string list \<Rightarrow> string" where
  "join_segs [] = []"
| "join_segs [s] = s"
| "join_segs (s # t # ss) = s @ ''/'' @ join_segs (t # ss)"

text \<open>
  Node's \<open>normalizeString\<close>: empty segments and \<open>.\<close> are dropped, \<open>..\<close> removes the
  segment before it, and is kept only where the path may climb above its start. The
  accumulator holds the segments kept so far, last first.
\<close>

fun normalize_segs :: "bool \<Rightarrow> string list \<Rightarrow> string list \<Rightarrow> string list" where
  "normalize_segs climb acc [] = rev acc"
| "normalize_segs climb acc (s # ss) =
     (if s = [] \<or> s = ''.'' then normalize_segs climb acc ss
      else if s = ''..'' then
        (case acc of
           [] \<Rightarrow> normalize_segs climb (if climb then [''..''] else []) ss
         | a # as \<Rightarrow>
             if a = ''..'' then normalize_segs climb (''..'' # a # as) ss
             else normalize_segs climb as ss)
      else normalize_segs climb (s # acc) ss)"

definition isAbsolute :: "string \<Rightarrow> bool" where
  "isAbsolute p = startsWith (toUnix p) ''/''"

definition normalize_path :: "string \<Rightarrow> string" where
  "normalize_path p0 =
     (let p = toUnix p0 in
      if p = [] then ''.''
      else
        let abs = startsWith p ''/'';
            trailing = endsWith p ''/'';
            s = join_segs (normalize_segs (\<not> abs) [] (split_path [] p))
        in if s = [] then (if abs then ''/'' else if trailing then ''./'' else ''.'')
           else (if abs then ''/'' else []) @ s @ (if trailing then ''/'' else []))"

definition join :: "string \<Rightarrow> string \<Rightarrow> string" where
  "join a0 b0 =
     (let a = toUnix a0; b = toUnix b0 in
      if a = [] \<and> b = [] then ''.''
      else if a = [] then normalize_path b
      else if b = [] then normalize_path a
      else normalize_path (a @ ''/'' @ b))"

text \<open>The segments of \<open>path.resolve(p)\<close>, an absolute path without a trailing slash.\<close>

definition resolve_segs :: "string \<Rightarrow> string \<Rightarrow> string list" where
  "resolve_segs cwd p0 =
     (let p = toUnix p0 in
      normalize_segs False []
        (split_path [] (if startsWith p ''/'' then p else toUnix cwd @ ''/'' @ p)))"

fun drop_common :: "string list \<Rightarrow> string list \<Rightarrow> string list \<times> string list" where
  "drop_common (a # as) (b # bs) = (if a = b then drop_common as bs else (a # as, b # bs))"
| "drop_common as bs = (as, bs)"

definition relative :: "string \<Rightarrow> string \<Rightarrow> string \<Rightarrow> string" where
  "relative cwd from to =
     (case drop_common (resolve_segs cwd from) (resolve_segs cwd to) of
        (f, t) \<Rightarrow> join_segs (map (\<lambda>_. ''..'') f @ t))"

text \<open>\<open>isSubdir\<close>, lines 13 to 16. The empty string is falsy.\<close>

definition isSubdir :: "string \<Rightarrow> string \<Rightarrow> string \<Rightarrow> bool" where
  "isSubdir cwd root test =
     (let rel = relative cwd root test
      in rel \<noteq> [] \<and> \<not> startsWith rel ''..'' \<and> \<not> isAbsolute rel)"

section \<open>Data model\<close>

text \<open>
  \<open>Options\<close> is declared in @vuetify/loader-shared: \<open>styles\<close> is \<open>true\<close> (or absent),
  \<open>'none'\<close>, \<open>'sass'\<close>, \<open>'expose'\<close> or an object with a \<open>configFile\<close>.
\<close>

datatype styles = StylesDefault | StylesNone | StylesSass | StylesExpose | StylesObject string

record options =
  styles :: styles
  useLayers :: "bool option"
  stylesTimeout :: nat

datatype error = TypeError | LoadRejected

text \<open>The values a \<open>Promise<boolean | number | null>\<close> carries, and their truthiness.\<close>

datatype jsval = Bool bool | Num nat | Null

fun truthy :: "jsval \<Rightarrow> bool" where
  "truthy (Bool b) = b"
| "truthy (Num n) = (n \<noteq> 0)"
| "truthy Null = False"

datatype settlement = Fulfilled jsval | Rejected

text \<open>
  A promise is identified by its index in the store \<open>promises\<close>; the only promises kept
  there are the ones line 100 creates, one for each settle cycle. A reaction is what was
  subscribed to such a promise:
  \<^item> \<open>AnyElement a\<close>: the \<open>Promise.any\<close> of line 84, in the loop iteration numbered \<open>a\<close>;
  \<^item> \<open>AwaitPromise c p\<close>: \<open>await promise\<close> of line 103 in the call of \<open>awaitResolve\<close>
    that created promise \<open>p\<close>;
  \<^item> \<open>ResolveResult c p\<close>: the result of a call of \<open>awaitResolve\<close> that returned the
    existing promise \<open>p\<close> (line 126).
  \<open>c\<close> names the hook invocation awaiting the call (\<open>transform\<close>, line 212), and is \<open>None\<close>
  for a call nobody awaits (\<open>resolveId\<close>, line 166).
\<close>

datatype reaction =
    AnyElement nat
  | AwaitPromise "nat option" nat
  | ResolveResult "nat option" nat

datatype pstate = Pending "reaction list" | Settled settlement

text \<open>
  The jobs of the microtask queue:
  \<^item> \<open>Reaction r s\<close>: the promise \<open>r\<close> was subscribed to has settled as \<open>s\<close>;
  \<^item> \<open>ResolveThenable c p\<close>: an async function returned promise \<open>p\<close>, which its own result
    adopts by a job that calls \<open>p.then\<close>;
  \<^item> \<open>ContinueBlocking a v\<close>: \<open>awaitBlocking\<close> continues at line 88 with \<open>pending = v\<close>;
  \<^item> \<open>ContinueAfterWrite c p\<close>: \<open>awaitResolve\<close> continues at line 110;
  \<^item> \<open>ResumeCaller c p s\<close>: the hook invocation \<open>c\<close> continues past its
    \<open>await awaitResolve(id)\<close>.
\<close>

datatype job =
    Reaction reaction settlement
  | ResolveThenable "nat option" nat
  | ContinueBlocking nat jsval
  | ContinueAfterWrite "nat option" nat
  | ResumeCaller nat nat settlement

text \<open>
  What the plugin does to the outside:
  \<^item> \<open>WriteStyles p fs\<close>: the call \<open>writeStyles(files)\<close> of line 108 in cycle \<open>p\<close>, with the
    files at that moment;
  \<^item> \<open>Utimes f\<close>: the call \<open>utimes(f, now, now)\<close> of line 117;
  \<^item> \<open>ConsoleError\<close>: the message of line 76;
  \<^item> \<open>ForcedLoad i\<close> and \<open>TransformRequest k\<close>: the requests of lines 46 and 63;
  \<^item> \<open>Resumed h p v\<close>: the hook invocation \<open>h\<close>, which awaited a call of \<open>awaitResolve\<close>
    that created or joined cycle \<open>p\<close>, continues past its \<open>await\<close> with the value \<open>v\<close>;
  \<^item> \<open>Threw h p\<close>: the same \<open>await\<close> throws instead;
  \<^item> \<open>Uncaught e\<close>: an exception nobody catches.
  A world keeps its effects newest first.
\<close>

datatype effect =
    WriteStyles nat "string list"
  | Utimes string
  | ConsoleError
  | ForcedLoad string
  | TransformRequest string
  | Resumed nat nat jsval
  | Threw nat nat
  | Uncaught error

text \<open>
  The host's module graph. Rollup's plugin context lists the known modules with their
  code (\<open>getModuleIds\<close>, \<open>getModuleInfo\<close>); Vite's dev server maps urls to module nodes,
  and \<open>cacheFileModules\<close> is what \<open>moduleGraph.getModulesByFile(cacheFile)\<close> returns: for
  each module of the aggregated file, the \<open>file\<close> of each of its importers.
\<close>

record moduleInfo =
  info_id :: string
  info_code :: "string option"

record moduleNode =
  node_id :: "string option"
  transformResult :: "string option"

record viteDevServer =
  urlToModuleMap :: "(string \<times> moduleNode) list"
  cacheFileModules :: "string option list list option"

text \<open>
  The variables of the closure \<open>stylesPlugin\<close> (lines 21 to 31, 70, 129 and 130), from
  \<open>vuetifyBase\<close> to \<open>tempFiles\<close>, followed by the state of the JavaScript event loop:
  the store of promises, the microtask queue, the timers that are armed, the
  \<open>Promise.any\<close> calls that have not settled (\<open>anys\<close>), the probes waiting for the
  timer of line 34 (\<open>sleeping\<close>) or for the race of their requests (\<open>racing\<close>, with the
  number of requests), the calls of \<open>writeStyles\<close> that have not finished (\<open>writes\<close>,
  each with the caller and the cycle of the \<open>awaitResolve\<close> that awaits it), and the
  effects so far. A \<open>Set\<close> is a list without duplicates in insertion order; a variable
  that is undefined or \<open>null\<close> is \<open>None\<close>.
\<close>

record world =
  vuetifyBase :: string
  files :: "string list"
  server :: "viteDevServer option"
  pluginContext :: "moduleInfo list option"
  resolve :: "nat option"
  promise :: "nat option"
  needsTouch :: bool
  blockingModules :: "string list"
  pendingModules :: "string option list option"
  timeout :: "nat option"
  configFile :: "string option"
  tempFiles :: "string \<rightharpoonup> string"
  promises :: "pstate list"
  microtasks :: "job list"
  timers :: "nat list"
  next_timer :: nat
  anys :: "nat list"
  next_any :: nat
  sleeping :: "nat list"
  racing :: "(nat \<times> nat) list"
  writes :: "(nat option \<times> nat) list"
  effects :: "effect list"

definition stylesPlugin :: "string \<Rightarrow> world" where
  "stylesPlugin base =
     \<lparr> vuetifyBase = base, files = [], server = None, pluginContext = None,
       resolve = None, promise = None, needsTouch = False, blockingModules = [],
       pendingModules = None, timeout = None, configFile = None, tempFiles = Map.empty,
       promises = [], microtasks = [], timers = [], next_timer = 0, anys = [],
       next_any = 0, sleeping = [], racing = [], writes = [], effects = [] \<rparr>"

definition set_add :: "'a \<Rightarrow> 'a list \<Rightarrow> 'a list" where
  "set_add x xs = (if x \<in> set xs then xs else xs @ [x])"

definition enqueue :: "job list \<Rightarrow> world \<Rightarrow> world" where
  "enqueue js w = w\<lparr>microtasks := microtasks w @ js\<rparr>"

definition emit :: "effect list \<Rightarrow> world \<Rightarrow> world" where
  "emit es w = w\<lparr>effects := rev es @ effects w\<rparr>"

section \<open>Promises and timers\<close>

text \<open>
  \<open>p.then(r)\<close>: a reaction on a pending promise waits in the promise's list; on a settled
  promise it becomes a job at once. Settling a promise turns its reactions into jobs, in
  the order they were subscribed; settling it again does nothing.
\<close>

definition then_promise :: "nat \<Rightarrow> reaction \<Rightarrow> world \<Rightarrow> world" where
  "then_promise p r w =
     (if p < length (promises w) then
        (case promises w ! p of
           Pending rs \<Rightarrow> w\<lparr>promises := (promises w)[p := Pending (rs @ [r])]\<rparr>
         | Settled s \<Rightarrow> enqueue [Reaction r s] w)
      else w)"

definition settle :: "nat \<Rightarrow> settlement \<Rightarrow> world \<Rightarrow> world" where
  "settle p s w =
     (if p < length (promises w) then
        (case promises w ! p of
           Pending rs \<Rightarrow>
             enqueue (map (\<lambda>r. Reaction r s) rs) (w\<lparr>promises := (promises w)[p := Settled s]\<rparr>)
         | Settled _ \<Rightarrow> w)
      else w)"

text \<open>
  \<open>resolve(v)\<close>: the variable \<open>resolve\<close> holds the resolving function of the promise
  created last (line 100). Calling it before it was ever assigned would be a TypeError.
\<close>

definition call_resolve :: "bool \<Rightarrow> world \<Rightarrow> world" where
  "call_resolve v w =
     (case resolve w of
        None \<Rightarrow> emit [Uncaught TypeError] w
      | Some p \<Rightarrow> settle p (Fulfilled (Bool v)) w)"

definition clearTimeout :: "nat option \<Rightarrow> world \<Rightarrow> world" where
  "clearTimeout h w = (case h of None \<Rightarrow> w | Some t \<Rightarrow> w\<lparr>timers := removeAll t (timers w)\<rparr>)"

definition setTimeout :: "world \<Rightarrow> world" where
  "setTimeout w =
     w\<lparr>timers := timers w @ [next_timer w], timeout := Some (next_timer w),
       next_timer := Suc (next_timer w)\<rparr>"

section \<open>The Graph Probe: getPendingModules, lines 32 to 68\<close>

text \<open>Lines 35 to 41: the modules of the build graph that survive the three filters.\<close>

definition pending_build :: "string list \<Rightarrow> moduleInfo list \<Rightarrow> moduleInfo list" where
  "pending_build blocking infos =
     filter (\<lambda>m. info_code m = None)
       (filter (\<lambda>m. \<not> info_id m \<in> set blocking \<and> \<not> stylesheet_re (info_id m)) infos)"

text \<open>Lines 51 to 58: the entries of the dev server's url map that survive.\<close>

definition pending_server ::
  "string list \<Rightarrow> (string \<times> moduleNode) list \<Rightarrow> (string \<times> moduleNode) list" where
  "pending_server blocking entries =
     filter (\<lambda>(k, v).
        transformResult v = None \<and>
        \<not> startsWith k ''/@id/'' \<and>
        \<not> stylesheet_re k \<and>
        \<not> (case node_id v of None \<Rightarrow> False | Some i \<Rightarrow> i \<in> set blocking) \<and>
        \<not> deps_re k) entries"

text \<open>
  In build mode the function runs in two steps. After the zero-delay timer of line 34 it
  filters the graph and either returns 0 (line 44) or forces the load of every survivor
  (line 46). The forced loads then race (line 47): \<open>Promise.race\<close> settles as the first
  load to settle does, so the function returns the number of loads if that load fulfils,
  and is rejected if it rejects.
\<close>

datatype probe = Returned nat | Forced "string list"

datatype race = FirstFulfils | FirstRejects

definition getPendingModules_start :: "string list \<Rightarrow> moduleInfo list \<Rightarrow> probe" where
  "getPendingModules_start blocking infos =
     (let modules = pending_build blocking infos
      in if modules = [] then Returned 0 else Forced (map info_id modules))"

definition getPendingModules_finish :: "nat \<Rightarrow> race \<Rightarrow> error + nat" where
  "getPendingModules_finish n r =
     (case r of FirstFulfils \<Rightarrow> Inr n | FirstRejects \<Rightarrow> Inl LoadRejected)"

text \<open>
  The whole function in build mode: the loads it forces, and what it returns, when the
  race of the loads settles as \<open>r\<close>.
\<close>

definition getPendingModules_build ::
  "string list \<Rightarrow> moduleInfo list \<Rightarrow> race \<Rightarrow> string list \<times> (error + nat)" where
  "getPendingModules_build blocking infos r =
     (case getPendingModules_start blocking infos of
        Returned n \<Rightarrow> ([], Inr n)
      | Forced ids \<Rightarrow> (ids, getPendingModules_finish (length ids) r))"

text \<open>
  The call of line 86, in loop iteration \<open>a\<close>, up to the first \<open>await\<close>. Without a dev
  server the function sleeps on the timer of line 34. With one it filters at once, and
  either has returned 0 already or has issued its transform requests.
\<close>

definition getPendingModules :: "nat \<Rightarrow> world \<Rightarrow> nat option \<times> world" where
  "getPendingModules a w =
     (case server w of
        None \<Rightarrow> (None, w\<lparr>sleeping := sleeping w @ [a]\<rparr>)
      | Some srv \<Rightarrow>
          let modules = pending_server (blockingModules w) (urlToModuleMap srv);
              w1 = w\<lparr>pendingModules := Some (map (\<lambda>(k, v). node_id v) modules)\<rparr>
          in if modules = [] then (Some 0, w1)
             else (None,
               emit (map (\<lambda>(k, v). TransformRequest k) modules)
                 (w1\<lparr>racing := racing w1 @ [(a, length modules)]\<rparr>)))"

text \<open>
  Lines 35 to 47, when the timer of line 34 has fired. If \<open>buildStart\<close> never ran,
  \<open>context\<close> is undefined and the function is rejected with a TypeError.
\<close>

definition probe_wakes :: "nat \<Rightarrow> world \<Rightarrow> world" where
  "probe_wakes a w =
     (let w1 = w\<lparr>sleeping := removeAll a (sleeping w)\<rparr> in
      case pluginContext w1 of
        None \<Rightarrow> enqueue [Reaction (AnyElement a) Rejected] w1
      | Some infos \<Rightarrow>
          let w2 = w1\<lparr>pendingModules :=
                Some (map (\<lambda>m. Some (info_id m)) (pending_build (blockingModules w1) infos))\<rparr>
          in case getPendingModules_start (blockingModules w1) infos of
               Returned n \<Rightarrow> enqueue [Reaction (AnyElement a) (Fulfilled (Num n))] w2
             | Forced ids \<Rightarrow>
                 emit (map ForcedLoad ids) (w2\<lparr>racing := racing w2 @ [(a, length ids)]\<rparr>))"

text \<open>Lines 47 to 49 and 64 to 66: the race of the forced requests settles.\<close>

definition race_settles :: "nat \<Rightarrow> race \<Rightarrow> world \<Rightarrow> world" where
  "race_settles a r w =
     (case map_of (racing w) a of
        None \<Rightarrow> w
      | Some n \<Rightarrow>
          enqueue
            [Reaction (AnyElement a)
               (case getPendingModules_finish n r of
                  Inr k \<Rightarrow> Fulfilled (Num k)
                | Inl _ \<Rightarrow> Rejected)]
            (w\<lparr>racing := filter (\<lambda>(b, _). b \<noteq> a) (racing w)\<rparr>))"

section \<open>The Quiescence Barrier: awaitBlocking and awaitResolve, lines 70 to 127\<close>

text \<open>
  One pass through the loop body of \<open>awaitBlocking\<close>, lines 74 to 87, up to its \<open>await\<close>:
  the watchdog is re-armed, \<open>getPendingModules\<close> is called, and \<open>Promise.any\<close> subscribes
  to \<open>promise\<close> first and to the probe second. A \<open>null\<close> in place of the promise counts
  as a promise fulfilled with \<open>null\<close>.
\<close>

definition awaitBlocking :: "world \<Rightarrow> world" where
  "awaitBlocking w =
     (let a = next_any w;
          w1 = setTimeout (clearTimeout (timeout w) w);
          (ready, w2) = getPendingModules a (w1\<lparr>next_any := Suc a, anys := anys w1 @ [a]\<rparr>);
          w3 = (case promise w2 of
                  None \<Rightarrow> enqueue [Reaction (AnyElement a) (Fulfilled Null)] w2
                | Some p \<Rightarrow> then_promise p (AnyElement a) w2)
      in case ready of
           None \<Rightarrow> w3
         | Some n \<Rightarrow> enqueue [Reaction (AnyElement a) (Fulfilled (Num n))] w3)"

text \<open>Lines 88 to 91: the loop repeats while \<open>pending\<close> is truthy, then resolves.\<close>

definition awaitBlocking_continue :: "jsval \<Rightarrow> world \<Rightarrow> world" where
  "awaitBlocking_continue pending w =
     (if truthy pending then awaitBlocking w else call_resolve False w)"

text \<open>Lines 75 to 82: the watchdog's callback.\<close>

definition timeout_callback :: "world \<Rightarrow> world" where
  "timeout_callback w = call_resolve False (emit [ConsoleError] w)"

text \<open>
  Lines 95 to 103 and 126: the call of \<open>awaitResolve(id)\<close> up to its first \<open>await\<close>, or to
  its \<open>return\<close>. The empty string is falsy.
\<close>

definition awaitResolve :: "nat option \<Rightarrow> string option \<Rightarrow> world \<Rightarrow> world" where
  "awaitResolve caller ident w =
     (let w1 = (case ident of
                  None \<Rightarrow> w
                | Some i \<Rightarrow>
                    if i = [] then w
                    else w\<lparr>blockingModules := set_add i (blockingModules w)\<rparr>)
      in case promise w1 of
           None \<Rightarrow>
             let p = length (promises w1);
                 w2 = w1\<lparr>promises := promises w1 @ [Pending []], promise := Some p,
                        resolve := Some p\<rparr>
             in then_promise p (AwaitPromise caller p) (awaitBlocking w2)
         | Some p \<Rightarrow> enqueue [ResolveThenable caller p] w1)"

text \<open>
  Lines 104 to 108, when \<open>promise\<close> has been fulfilled: the watchdog and the blocking set
  are cleared and \<open>writeStyles(files)\<close> is called.

  Modelled from the spec: \<open>writeStyles\<close> of @vuetify/loader-shared is the aggregated
  artifact's writer, "treated as idempotent and total": the call is recorded with the
  files it is given, and its promise is fulfilled later.
\<close>

definition awaitResolve_write :: "nat option \<Rightarrow> nat \<Rightarrow> world \<Rightarrow> world" where
  "awaitResolve_write caller p w =
     (let w1 = (clearTimeout (timeout w) w)\<lparr>blockingModules := []\<rparr>
      in (emit [WriteStyles p (files w1)] w1)\<lparr>writes := writes w1 @ [(caller, p)]\<rparr>)"

text \<open>Lines 112 to 120: the files of the importers that are touched.\<close>

definition touched :: "viteDevServer \<Rightarrow> string list" where
  "touched srv =
     (case cacheFileModules srv of
        None \<Rightarrow> []
      | Some ms \<Rightarrow>
          concat (map (\<lambda>importers.
            concat (map (\<lambda>file. case file of
                           None \<Rightarrow> []
                         | Some f \<Rightarrow> if f = [] then [] else [f]) importers)) ms))"

text \<open>
  Lines 110 to 126, when the write has finished. The function returns \<open>promise\<close> after
  setting it to \<open>null\<close>, so the call that ran the cycle returns \<open>null\<close>.
\<close>

definition awaitResolve_finish :: "nat option \<Rightarrow> nat \<Rightarrow> world \<Rightarrow> world" where
  "awaitResolve_finish caller p w =
     (let w1 = (case server w of
                  None \<Rightarrow> w
                | Some srv \<Rightarrow>
                    if needsTouch w
                    then (emit (map Utimes (touched srv)) w)\<lparr>needsTouch := False\<rparr>
                    else w);
          w2 = w1\<lparr>promise := None\<rparr>
      in case caller of
           None \<Rightarrow> w2
         | Some h \<Rightarrow> enqueue [ResumeCaller h p (Fulfilled Null)] w2)"

text \<open>Lines 174 to 178 of \<open>resolveId\<close>: a resolved fragment joins \<open>files\<close>.\<close>

definition registerFragment :: "string \<Rightarrow> world \<Rightarrow> world" where
  "registerFragment path w =
     (if \<not> path \<in> set (files w)
      then w\<lparr>needsTouch := True, files := set_add path (files w)\<rparr>
      else w)"

section \<open>The event loop\<close>

text \<open>
  A job runs to completion. A rejected element of \<open>Promise.any\<close> leaves it waiting for
  the other element; a rejected \<open>await\<close> would throw into the caller.
\<close>

fun run_job :: "job \<Rightarrow> world \<Rightarrow> world" where
  "run_job (Reaction (AnyElement a) s) w =
     (if a \<in> set (anys w) then
        (case s of
           Fulfilled v \<Rightarrow> enqueue [ContinueBlocking a v] (w\<lparr>anys := removeAll a (anys w)\<rparr>)
         | Rejected \<Rightarrow> w)
      else w)"
| "run_job (Reaction (AwaitPromise c p) s) w =
     (case s of
        Fulfilled v \<Rightarrow> awaitResolve_write c p w
      | Rejected \<Rightarrow> (case c of None \<Rightarrow> w | Some h \<Rightarrow> enqueue [ResumeCaller h p Rejected] w))"
| "run_job (Reaction (ResolveResult c p) s) w =
     (case c of None \<Rightarrow> w | Some h \<Rightarrow> enqueue [ResumeCaller h p s] w)"
| "run_job (ResolveThenable c p) w = then_promise p (ResolveResult c p) w"
| "run_job (ContinueBlocking a v) w = awaitBlocking_continue v w"
| "run_job (ContinueAfterWrite c p) w = awaitResolve_finish c p w"
| "run_job (ResumeCaller h p s) w =
     emit [case s of Fulfilled v \<Rightarrow> Resumed h p v | Rejected \<Rightarrow> Threw h p] w"

text \<open>
  What can happen next. \<open>Tick\<close> runs the first job of the microtask queue. A hook can be
  called at any moment: \<open>Call_awaitResolve\<close> is the call of line 212 (\<open>transform\<close>, which
  awaits it) or of line 166 (\<open>resolveId\<close>, which does not), and \<open>Register\<close> is lines 174
  to 178. The promises of the host (the race of the forced loads, the write of the
  styles) settle at any moment too. A timer is a task of its own, which the event loop
  starts only when the microtask queue is empty: \<open>TimerFires\<close> is the watchdog of line
  75, \<open>ProbeWakes\<close> the zero-delay timer of line 34.
\<close>

datatype event =
    Tick
  | Call_awaitResolve "nat option" "string option"
  | Register string
  | ConfigureServer viteDevServer
  | BuildStart "moduleInfo list"
  | TimerFires nat
  | ProbeWakes nat
  | RaceSettles nat race
  | WriteSettles nat

fun step :: "event \<Rightarrow> world \<Rightarrow> world" where
  "step Tick w =
     (case microtasks w of [] \<Rightarrow> w | j # js \<Rightarrow> run_job j (w\<lparr>microtasks := js\<rparr>))"
| "step (Call_awaitResolve c ident) w = awaitResolve c ident w"
| "step (Register path) w = registerFragment path w"
| "step (ConfigureServer srv) w = w\<lparr>server := Some srv\<rparr>"
| "step (BuildStart this) w =
     (if server w = None then w\<lparr>pluginContext := Some this\<rparr> else w)"
| "step (TimerFires h) w =
     (if microtasks w = [] \<and> h \<in> set (timers w)
      then timeout_callback (w\<lparr>timers := removeAll h (timers w)\<rparr>)
      else w)"
| "step (ProbeWakes a) w =
     (if microtasks w = [] \<and> a \<in> set (sleeping w) then probe_wakes a w else w)"
| "step (RaceSettles a r) w = race_settles a r w"
| "step (WriteSettles p) w =
     (case find (\<lambda>(c, q). q = p) (writes w) of
        None \<Rightarrow> w
      | Some (c, q) \<Rightarrow>
          enqueue [ContinueAfterWrite c p]
            (w\<lparr>writes := filter (\<lambda>(c, q). q \<noteq> p) (writes w)\<rparr>))"

definition run :: "event list \<Rightarrow> world \<Rightarrow> world" where
  "run evs w = fold step evs w"

section \<open>The hooks: configResolved, resolveId and load, lines 143 to 246\<close>

text \<open>
  A template literal prints an undefined value as \<open>undefined\<close>. \<open>scssFileContents\<close> is
  lines 239 to 246, character by character.
\<close>

definition interpolate :: "string option \<Rightarrow> string" where
  "interpolate v = (case v of None \<Rightarrow> ''undefined'' | Some s \<Rightarrow> s)"

definition dq :: string where
  "dq = [CHR 0x22]"

definition nl :: string where
  "nl = [CHR 0x0A]"

definition scssFileContents :: "bool option \<Rightarrow> string option \<Rightarrow> string \<Rightarrow> string" where
  "scssFileContents layers config target =
     (if layers = Some True then
        ''@use '' @ [CHR 0x27] @ ''sass:meta'' @ [CHR 0x27] @ '';'' @ nl @
        '' @use '' @ dq @ interpolate config @ '';'' @ nl @
        '' @layer framework {'' @ nl @
        '' @include meta.load-css('' @ dq @ target @ dq @ '');'' @ nl @
        '' }'' @ nl
      else
        ''@use '' @ dq @ interpolate config @ dq @ nl @ ''@use '' @ dq @ target @ dq)"

text \<open>Lines 143 to 151; \<open>root\<close> is \<open>config.root\<close>, and an empty root is falsy.\<close>

definition configResolved :: "options \<Rightarrow> string \<Rightarrow> string option \<Rightarrow> world \<Rightarrow> world" where
  "configResolved opts cwd root w =
     (case styles opts of
        StylesObject file \<Rightarrow>
          if isAbsolute file then w\<lparr>configFile := Some file\<rparr>
          else w\<lparr>configFile :=
                 Some (join (case root of None \<Rightarrow> cwd
                             | Some r \<Rightarrow> if r = [] then cwd else r) file)\<rparr>
      | _ \<Rightarrow> w)"

text \<open>Lines 153 to 159: the requests the hook takes for a style entry.\<close>

definition style_entry :: "string \<Rightarrow> string \<Rightarrow> string \<Rightarrow> string option \<Rightarrow> bool" where
  "style_entry cwd base source importer =
     (source = ''vuetify/styles'' \<or>
      (case importer of
         None \<Rightarrow> False
       | Some i \<Rightarrow>
           i \<noteq> [] \<and> endsWith source ''.css'' \<and>
           isSubdir cwd base (if isAbsolute source then source else i)))"

text \<open>
  What \<open>resolveId\<close> returns: an id of its own, the host's resolution of a delegated
  request (an object holding the resolved id), or \<open>null\<close>.
\<close>

datatype resolved = OwnId string | Resolution string | NoResolution

text \<open>
  The hook is asynchronous: in three of its modes it asks the host to resolve a request
  (\<open>this.resolve\<close>, lines 164, 168 and 183) and continues when the host answers.
  \<open>resolveId_begin\<close> is the hook up to that point, \<open>resolveId_resume\<close> is the rest, given
  the host's answer (the resolved id, or \<open>None\<close> for \<open>null\<close>).
\<close>

datatype delegated = FromSass | FromExpose | FromObject

datatype request = Done resolved | Delegate string "string option" delegated

definition resolveId_begin ::
  "options \<Rightarrow> string \<Rightarrow> string \<Rightarrow> string option \<Rightarrow> world \<Rightarrow> request \<times> world" where
  "resolveId_begin opts cwd source importer w =
     (if style_entry cwd (vuetifyBase w) source importer then
        (case styles opts of
           StylesNone \<Rightarrow> (Done (OwnId void_id), w)
         | StylesSass \<Rightarrow> (Delegate (replace_css_sass source) importer FromSass, w)
         | StylesExpose \<Rightarrow>
             (Delegate (replace_css_sass source) importer FromExpose, awaitResolve None None w)
         | StylesObject _ \<Rightarrow> (Delegate source importer FromObject, w)
         | StylesDefault \<Rightarrow> (Done NoResolution, w))
      else if startsWith source ''/plugin-vuetify:'' then
        (Done (OwnId (CHR 0x00 # slice source 1)), w)
      else if startsWith source ''/@id/__x00__plugin-vuetify:'' then
        (Done (OwnId (CHR 0x00 # slice source 12)), w)
      else (Done NoResolution, w))"

definition resolveId_resume ::
  "options \<Rightarrow> string \<Rightarrow> delegated \<Rightarrow> string option \<Rightarrow> world \<Rightarrow> resolved \<times> world" where
  "resolveId_resume opts cwd k resolution w =
     (case k of
        FromSass \<Rightarrow>
          (case resolution of None \<Rightarrow> (NoResolution, w) | Some r \<Rightarrow> (Resolution r, w))
      | FromExpose \<Rightarrow>
          (case resolution of
             None \<Rightarrow> (NoResolution, w)
           | Some r \<Rightarrow> (OwnId void_id, registerFragment r w))
      | FromObject \<Rightarrow>
          (case resolution of
             None \<Rightarrow> (NoResolution, w)
           | Some r \<Rightarrow>
               let target = replace_css_sass r;
                   file = relative cwd (join (vuetifyBase w) ''lib'') target;
                   contents = scssFileContents (useLayers opts) (configFile w) target
               in (OwnId (plugin_prefix @ '':'' @ file),
                   w\<lparr>tempFiles := (tempFiles w)(file \<mapsto> contents)\<rparr>)))"

text \<open>
  The whole hook, when nothing else runs between its request to the host and the
  answer; \<open>host\<close> is the host's \<open>resolve\<close>.
\<close>

definition resolveId ::
  "options \<Rightarrow> string \<Rightarrow> (string \<Rightarrow> string option \<Rightarrow> string option) \<Rightarrow>
   string \<Rightarrow> string option \<Rightarrow> world \<Rightarrow> resolved \<times> world" where
  "resolveId opts cwd host source importer w =
     (case resolveId_begin opts cwd source importer w of
        (Done r, w1) \<Rightarrow> (r, w1)
      | (Delegate target imp k, w1) \<Rightarrow> resolveId_resume opts cwd k (host target imp) w1)"

text \<open>
  Lines 221 to 235. The hook returns a string, \<open>undefined\<close> (a key \<open>tempFiles\<close> does not
  hold) or \<open>null\<close>; line 229 reads group 1 of a match it asserts to exist, which is a
  TypeError when the expression did not match.
\<close>

datatype loaded = Content string | Undefined | NullResult

definition load :: "string \<Rightarrow> world \<Rightarrow> error + loaded" where
  "load ident w =
     (if void_re ident then Inr (Content [])
      else if startsWith ident plugin_prefix then
        (case plugin_re_exec ident of
           None \<Rightarrow> Inl TypeError
         | Some file \<Rightarrow>
             Inr (case tempFiles w file of None \<Rightarrow> Undefined | Some c \<Rightarrow> Content c))
      else Inr NullResult)"

text \<open>Two hosts for the examples: one that resolves nothing, one that resolves to \<open>r\<close>.\<close>

definition host_null :: "string \<Rightarrow> string option \<Rightarrow> string option" where
  "host_null target importer = None"

definition host_finds :: "string \<Rightarrow> string \<Rightarrow> string option \<Rightarrow> string option" where
  "host_finds r target importer = Some r"

definition expose_options :: options where
  "expose_options = \<lparr>styles = StylesExpose, useLayers = None, stylesTimeout = 10000\<rparr>"

definition config_options :: options where
  "config_options =
     \<lparr>styles = StylesObject ''settings.scss'', useLayers = None, stylesTimeout = 10000\<rparr>"

text \<open>A sequence of calls of \<open>awaitResolve\<close>, each with its caller and its id.\<close>

definition awaitResolve_calls :: "(nat option \<times> string option) list \<Rightarrow> world \<Rightarrow> world" where
  "awaitResolve_calls calls w = fold (\<lambda>(c, i). awaitResolve c i) calls w"

text \<open>The effects that touch a file.\<close>

fun is_touch :: "effect \<Rightarrow> bool" where
  "is_touch (Utimes f) = True"
| "is_touch _ = False"

text \<open>
  Worlds for the examples: the plugin in configured mode after \<open>configResolved\<close>, and the
  plugin under a dev server where one module imports the aggregated file, after a
  fragment was registered.
\<close>

definition configured_world :: world where
  "configured_world =
     configResolved config_options ''/proj'' None (stylesPlugin ''/proj/node_modules/vuetify'')"

definition dev_server :: viteDevServer where
  "dev_server = \<lparr>urlToModuleMap = [], cacheFileModules = Some [[Some ''/proj/src/App.vue'', None]]\<rparr>"

definition dev_world :: world where
  "dev_world =
     registerFragment ''/proj/node_modules/vuetify/lib/styles/main.sass''
       (step (ConfigureServer dev_server) (stylesPlugin ''/proj/node_modules/vuetify''))"

section \<open>What the callers of awaitResolve depend on\<close>

text \<open>
  The reactions and jobs of the probe and of the driving loop resume no caller; the
  others belong to a call of \<open>awaitResolve\<close>. The shadow of a world keeps these others,
  the writes in flight, and the effects a caller can observe.
\<close>

fun caller_reaction :: "reaction \<Rightarrow> bool" where
  "caller_reaction (AnyElement a) = False"
| "caller_reaction (AwaitPromise c p) = True"
| "caller_reaction (ResolveResult c p) = True"

fun caller_job :: "job \<Rightarrow> bool" where
  "caller_job (Reaction r s) = caller_reaction r"
| "caller_job (ResolveThenable c p) = False"
| "caller_job (ContinueBlocking a v) = False"
| "caller_job (ContinueAfterWrite c p) = True"
| "caller_job (ResumeCaller h p s) = True"

fun observable :: "effect \<Rightarrow> bool" where
  "observable (WriteStyles p fs) = True"
| "observable (Resumed h p v) = True"
| "observable (Threw h p) = True"
| "observable _ = False"

fun caller_part :: "pstate \<Rightarrow> pstate" where
  "caller_part (Pending rs) = Pending (filter caller_reaction rs)"
| "caller_part (Settled s) = Settled s"

record shadow =
  s_promises :: "pstate list"
  s_jobs :: "job list"
  s_writes :: "(nat option \<times> nat) list"
  s_effects :: "effect list"

definition shadow_of :: "world \<Rightarrow> shadow" where
  "shadow_of w =
     \<lparr> s_promises = map caller_part (promises w),
       s_jobs = filter caller_job (microtasks w),
       s_writes = writes w,
       s_effects = filter observable (effects w) \<rparr>"

text \<open>
  The cycles whose write has been issued, and the order the claim is about: in a list
  of effects, newest first, every resumption of a caller of cycle \<open>p\<close> has the write of
  cycle \<open>p\<close> among the effects before it.
\<close>

fun written :: "effect list \<Rightarrow> nat list" where
  "written [] = []"
| "written (WriteStyles p fs # es) = p # written es"
| "written (e # es) = written es"

fun write_before_resume :: "effect list \<Rightarrow> bool" where
  "write_before_resume [] = True"
| "write_before_resume (Resumed h p v # es) = (p \<in> set (written es) \<and> write_before_resume es)"
| "write_before_resume (e # es) = write_before_resume es"

text \<open>
  A queue is guarded when every job that leads to the resumption of a caller of cycle
  \<open>p\<close> comes after the write of cycle \<open>p\<close>: the write was issued (\<open>p\<close> is in \<open>W\<close>), or the job
  that issues it is ahead in the queue.
\<close>

fun guarded :: "nat set \<Rightarrow> job list \<Rightarrow> bool" where
  "guarded W [] = True"
| "guarded W (Reaction (AwaitPromise c p) (Fulfilled v) # js) = guarded (insert p W) js"
| "guarded W (Reaction (ResolveResult c p) (Fulfilled v) # js) = (p \<in> W \<and> guarded W js)"
| "guarded W (ResumeCaller h p (Fulfilled v) # js) = (p \<in> W \<and> guarded W js)"
| "guarded W (ContinueAfterWrite c p # js) = (p \<in> W \<and> guarded W js)"
| "guarded W (j # js) = guarded W js"

fun writers :: "job list \<Rightarrow> nat list" where
  "writers [] = []"
| "writers (Reaction (AwaitPromise c p) (Fulfilled v) # js) = p # writers js"
| "writers (j # js) = writers js"

text \<open>
  The reactions of the pending promise of cycle \<open>p\<close>: the \<open>await\<close> of the call that created
  it comes first, the others are results of calls that joined the same cycle.
\<close>

fun joins :: "nat \<Rightarrow> reaction \<Rightarrow> bool" where
  "joins p (ResolveResult c q) = (q = p)"
| "joins p r = False"

fun creator_first :: "nat \<Rightarrow> reaction list \<Rightarrow> bool" where
  "creator_first p (AwaitPromise c q # rs) = (q = p \<and> (\<forall>r \<in> set rs. joins p r))"
| "creator_first p rs = False"

fun promise_ok :: "nat set \<Rightarrow> nat \<Rightarrow> pstate \<Rightarrow> bool" where
  "promise_ok W p (Pending rs) = creator_first p rs"
| "promise_ok W p (Settled (Fulfilled v)) = (p \<in> W)"
| "promise_ok W p (Settled Rejected) = True"

definition ordered :: "shadow \<Rightarrow> bool" where
  "ordered s =
     (write_before_resume (s_effects s) \<and>
      guarded (set (written (s_effects s))) (s_jobs s) \<and>
      (\<forall>p < length (s_promises s).
         promise_ok (set (written (s_effects s)) \<union> set (writers (s_jobs s))) p
           (s_promises s ! p)) \<and>
      (\<forall>(c, p) \<in> set (s_writes s). p \<in> set (written (s_effects s))))"

text \<open>The values the barrier hands out: \<open>false\<close> to a call that joined, \<open>null\<close> to the call that ran the cycle.\<close>

fun job_value_ok :: "job \<Rightarrow> bool" where
  "job_value_ok (Reaction r s) = (s = Fulfilled (Bool False))"
| "job_value_ok (ResumeCaller h p s) = (s = Fulfilled (Bool False) \<or> s = Fulfilled Null)"
| "job_value_ok j = True"

fun effect_value_ok :: "effect \<Rightarrow> bool" where
  "effect_value_ok (Resumed h p v) = (v = Bool False \<or> v = Null)"
| "effect_value_ok (Threw h p) = False"
| "effect_value_ok e = True"

fun promise_value_ok :: "pstate \<Rightarrow> bool" where
  "promise_value_ok (Pending rs) = True"
| "promise_value_ok (Settled s) = (s = Fulfilled (Bool False))"

definition values_ok :: "shadow \<Rightarrow> bool" where
  "values_ok s =
     ((\<forall>ps \<in> set (s_promises s). promise_value_ok ps) \<and>
      (\<forall>j \<in> set (s_jobs s). job_value_ok j) \<and>
      (\<forall>e \<in> set (s_effects s). effect_value_ok e))"

text \<open>Settling a promise and subscribing to one, on the shadow.\<close>

definition s_settle :: "nat \<Rightarrow> settlement \<Rightarrow> shadow \<Rightarrow> shadow" where
  "s_settle p st s =
     (if p < length (s_promises s) then
        (case s_promises s ! p of
           Pending rs \<Rightarrow>
             s\<lparr>s_promises := (s_promises s)[p := Settled st],
               s_jobs := s_jobs s @ map (\<lambda>r. Reaction r st) rs\<rparr>
         | Settled _ \<Rightarrow> s)
      else s)"

definition s_then :: "nat \<Rightarrow> reaction \<Rightarrow> shadow \<Rightarrow> shadow" where
  "s_then p r s =
     (if p < length (s_promises s) then
        (case s_promises s ! p of
           Pending rs \<Rightarrow> s\<lparr>s_promises := (s_promises s)[p := Pending (rs @ [r])]\<rparr>
         | Settled st \<Rightarrow> s\<lparr>s_jobs := s_jobs s @ [Reaction r st]\<rparr>)
      else s)"

text \<open>The effects of a world in the order they happened.\<close>

definition history :: "world \<Rightarrow> effect list" where
  "history w = rev (effects w)"

text \<open>
  Two runs of one settle cycle in build mode, with the call of \<open>transform\<close> number 1
  creating the cycle and the call number 2 joining it. In the first the probe finds
  every module loaded and the loop ends by itself; in the second a module never loads
  and the watchdog ends the cycle.
\<close>

definition quiescent_run :: "event list" where
  "quiescent_run =
     [BuildStart [\<lparr>info_id = ''/src/main.ts'', info_code = Some ''loaded''\<rparr>],
      Call_awaitResolve (Some 1) (Some ''/src/a.scss''),
      Call_awaitResolve (Some 2) (Some ''/src/b.scss''),
      Tick, ProbeWakes 0, Tick, Tick, Tick, Tick, Tick, Tick, WriteSettles 0, Tick, Tick]"

definition watchdog_run :: "event list" where
  "watchdog_run =
     [BuildStart [\<lparr>info_id = ''/src/main.ts'', info_code = None\<rparr>],
      Call_awaitResolve (Some 1) (Some ''/src/a.scss''),
      Call_awaitResolve (Some 2) (Some ''/src/b.scss''),
      Tick, ProbeWakes 0, TimerFires 0, Tick, Tick, Tick, Tick, Tick, WriteSettles 0,
      Tick, Tick]"

text \<open>
  The tokens of cycle \<open>q\<close>: the \<open>await\<close> of the call that created promise \<open>q\<close>, while it
  waits in a promise's reactions or in the queue, then the write it has issued, then
  the job that continues after the write. A world runs a single cycle when every
  pending promise is the one \<open>promise\<close> holds, and the only token is that cycle's.
\<close>

fun token_reaction :: "nat \<Rightarrow> reaction \<Rightarrow> bool" where
  "token_reaction q (AwaitPromise c p) = (p = q)"
| "token_reaction q r = False"

fun token_job :: "nat \<Rightarrow> job \<Rightarrow> bool" where
  "token_job q (Reaction r st) = token_reaction q r"
| "token_job q (ContinueAfterWrite c p) = (p = q)"
| "token_job q j = False"

fun tokens_promise :: "nat \<Rightarrow> pstate \<Rightarrow> nat" where
  "tokens_promise q (Pending rs) = length (filter (token_reaction q) rs)"
| "tokens_promise q (Settled st) = 0"

definition tokens :: "nat \<Rightarrow> shadow \<Rightarrow> nat" where
  "tokens q s =
     sum_list (map (tokens_promise q) (s_promises s)) +
     length (filter (token_job q) (s_jobs s)) +
     length (filter (\<lambda>(c, p). p = q) (s_writes s))"

fun is_pending :: "pstate \<Rightarrow> bool" where
  "is_pending (Pending rs) = True"
| "is_pending (Settled st) = False"

definition single_cycle :: "nat option \<Rightarrow> shadow \<Rightarrow> bool" where
  "single_cycle cur s =
     ((\<forall>q < length (s_promises s). is_pending (s_promises s ! q) \<longrightarrow> cur = Some q) \<and>
      (\<forall>q. tokens q s = (if cur = Some q then 1 else 0)))"

section \<open>Verified properties\<close>

subsection \<open>Strings\<close>

lemma startsWith_iff: "startsWith s p \<longleftrightarrow> (\<exists>post. s = p @ post)"
  unfolding startsWith_def
  by (metis append_eq_conv_conj append_take_drop_id)

text \<open>
  The stylesheet pattern matches a string exactly when a word character, followed by
  one of the three extensions, occurs somewhere in it.
\<close>

lemma stylesheet_re_iff:
  "stylesheet_re s \<longleftrightarrow>
     (\<exists>pre c ext post. s = pre @ c # ext @ post \<and> word_char c \<and>
        (ext = ''.sass'' \<or> ext = ''.scss'' \<or> ext = ''.css''))"
proof (induction s)
  case Nil
  then show ?case by simp
next
  case (Cons a s)
  show ?case
  proof
    assume "stylesheet_re (a # s)"
    then consider (here) "word_char a"
        "startsWith s ''.sass'' \<or> startsWith s ''.scss'' \<or> startsWith s ''.css''"
      | (later) "stylesheet_re s" by auto
    then show "\<exists>pre c ext post. a # s = pre @ c # ext @ post \<and> word_char c \<and>
        (ext = ''.sass'' \<or> ext = ''.scss'' \<or> ext = ''.css'')"
    proof cases
      case here
      then obtain ext post where "s = ext @ post"
        "ext = ''.sass'' \<or> ext = ''.scss'' \<or> ext = ''.css''"
        unfolding startsWith_iff by blast
      with here(1) have "a # s = [] @ a # ext @ post \<and> word_char a \<and>
        (ext = ''.sass'' \<or> ext = ''.scss'' \<or> ext = ''.css'')" by simp
      then show ?thesis by blast
    next
      case later
      with Cons.IH obtain pre c ext post where
        "s = pre @ c # ext @ post" "word_char c"
        "ext = ''.sass'' \<or> ext = ''.scss'' \<or> ext = ''.css''"
        by blast
      then have "a # s = (a # pre) @ c # ext @ post \<and> word_char c \<and>
        (ext = ''.sass'' \<or> ext = ''.scss'' \<or> ext = ''.css'')" by simp
      then show ?thesis by blast
    qed
  next
    assume "\<exists>pre c ext post. a # s = pre @ c # ext @ post \<and> word_char c \<and>
        (ext = ''.sass'' \<or> ext = ''.scss'' \<or> ext = ''.css'')"
    then obtain pre c ext post where e: "a # s = pre @ c # ext @ post" and w: "word_char c"
      and x: "ext = ''.sass'' \<or> ext = ''.scss'' \<or> ext = ''.css''" by blast
    show "stylesheet_re (a # s)"
    proof (cases pre)
      case Nil
      with e have "a = c" "s = ext @ post" by simp_all
      with w x have "word_char a \<and>
        (startsWith s ''.sass'' \<or> startsWith s ''.scss'' \<or> startsWith s ''.css'')"
        unfolding startsWith_iff by blast
      then show ?thesis by simp
    next
      case (Cons b pre')
      with e have "s = pre' @ c # ext @ post" by simp
      with w x Cons.IH have "stylesheet_re s" by blast
      then show ?thesis by simp
    qed
  qed
qed

subsection \<open>The Graph Probe in build mode\<close>

lemma set_pending_build:
  "m \<in> set (pending_build blocking infos) \<longleftrightarrow>
     m \<in> set infos \<and> info_id m \<notin> set blocking \<and> \<not> stylesheet_re (info_id m) \<and>
     info_code m = None"
  by (auto simp add: pending_build_def)

text \<open>
  C3, as the code has it. In build mode the survivors of the probe are the modules of
  the graph whose id is not in the blocking set, does not match the stylesheet pattern,
  and that carry no code. The probe forces the load of exactly the survivors. With no
  survivor it returns 0 and forces nothing, however the race would settle. With
  survivors it returns their number when the first load to settle fulfils, and is
  rejected when the first load to settle rejects.
\<close>

theorem getPendingModules_build_probe:
  "(\<forall>m. m \<in> set (pending_build blocking infos) \<longleftrightarrow>
      m \<in> set infos \<and> info_id m \<notin> set blocking \<and> \<not> stylesheet_re (info_id m) \<and>
      info_code m = None) \<and>
   fst (getPendingModules_build blocking infos r) = map info_id (pending_build blocking infos) \<and>
   (pending_build blocking infos = [] \<longrightarrow>
      getPendingModules_build blocking infos r = ([], Inr 0)) \<and>
   (pending_build blocking infos \<noteq> [] \<longrightarrow>
      snd (getPendingModules_build blocking infos FirstFulfils) =
        Inr (length (pending_build blocking infos)) \<and>
      snd (getPendingModules_build blocking infos FirstRejects) = Inl LoadRejected)"
  by (simp add: set_pending_build getPendingModules_build_def getPendingModules_start_def
      getPendingModules_finish_def Let_def)

theorem getPendingModules_build_probe_witness:
  "pending_build [''/src/a.scss'']
     [\<lparr>info_id = ''/src/main.ts'', info_code = None\<rparr>,
      \<lparr>info_id = ''/src/a.scss'', info_code = None\<rparr>,
      \<lparr>info_id = ''/src/b.css'', info_code = None\<rparr>,
      \<lparr>info_id = ''/src/c.ts'', info_code = Some ''x''\<rparr>] =
     [\<lparr>info_id = ''/src/main.ts'', info_code = None\<rparr>] \<and>
   getPendingModules_build [''/src/a.scss'']
     [\<lparr>info_id = ''/src/main.ts'', info_code = None\<rparr>,
      \<lparr>info_id = ''/src/a.scss'', info_code = None\<rparr>,
      \<lparr>info_id = ''/src/b.css'', info_code = None\<rparr>,
      \<lparr>info_id = ''/src/c.ts'', info_code = Some ''x''\<rparr>] FirstFulfils =
     ([''/src/main.ts''], Inr 1)"
proof -
  let ?infos = "[\<lparr>info_id = ''/src/main.ts'', info_code = None\<rparr>,
      \<lparr>info_id = ''/src/a.scss'', info_code = None\<rparr>,
      \<lparr>info_id = ''/src/b.css'', info_code = None\<rparr>,
      \<lparr>info_id = ''/src/c.ts'', info_code = Some ''x''\<rparr>]"
  have p: "pending_build [''/src/a.scss''] ?infos =
      [\<lparr>info_id = ''/src/main.ts'', info_code = None\<rparr>]"
    by (simp add: pending_build_def startsWith_def word_char_def)
  then have ne: "pending_build [''/src/a.scss''] ?infos \<noteq> []" by simp
  from getPendingModules_build_probe [of "[''/src/a.scss'']" ?infos FirstFulfils] ne p
  show ?thesis by (simp add: prod_eq_iff)
qed

text \<open>
  C3, as the claim has it, fails where the first forced load to settle is rejected: the
  one survivor's load was forced and has settled, and the probe is rejected instead of
  returning 1.
\<close>

theorem getPendingModules_build_counterexample:
  "getPendingModules_build [] [\<lparr>info_id = ''/src/main.ts'', info_code = None\<rparr>] FirstRejects =
     ([''/src/main.ts''], Inl LoadRejected)"
  by (simp add: getPendingModules_build_def getPendingModules_start_def
      getPendingModules_finish_def pending_build_def startsWith_def word_char_def)

subsection \<open>Registering a fragment\<close>

lemma files_registerFragment:
  "files (registerFragment p w) = (if p \<in> set (files w) then files w else files w @ [p])"
  by (simp add: registerFragment_def set_add_def)

lemma distinct_registerFragment:
  "distinct (files w) \<Longrightarrow> distinct (files (registerFragment p w))"
  by (simp add: files_registerFragment)

text \<open>
  C6. Registering a path twice is registering it once: the second call changes nothing,
  so the size of \<open>files\<close> stays. After a call the path is a member, a call for a path
  that is already a member changes nothing, and \<open>needsTouch\<close> changes only when the path
  was not a member.
\<close>

theorem registerFragment_idempotent:
  "registerFragment p (registerFragment p w) = registerFragment p w \<and>
   length (files (registerFragment p (registerFragment p w))) =
     length (files (registerFragment p w)) \<and>
   set (files (registerFragment p w)) = insert p (set (files w)) \<and>
   (p \<in> set (files w) \<longrightarrow> registerFragment p w = w) \<and>
   (needsTouch (registerFragment p w) \<noteq> needsTouch w \<longrightarrow> p \<notin> set (files w))"
  by (auto simp add: registerFragment_def set_add_def)

theorem registerFragment_idempotent_witness:
  "needsTouch (registerFragment ''a.sass'' (stylesPlugin ''/v'')) \<noteq>
     needsTouch (stylesPlugin ''/v'') \<and>
   ''a.sass'' \<notin> set (files (stylesPlugin ''/v'')) \<and>
   ''a.sass'' \<in> set (files (registerFragment ''a.sass'' (stylesPlugin ''/v''))) \<and>
   registerFragment ''a.sass'' (registerFragment ''a.sass'' (stylesPlugin ''/v'')) =
     registerFragment ''a.sass'' (stylesPlugin ''/v'')"
proof -
  have h: "needsTouch (registerFragment ''a.sass'' (stylesPlugin ''/v'')) \<noteq>
      needsTouch (stylesPlugin ''/v'')"
    by (simp add: registerFragment_def stylesPlugin_def)
  have m: "''a.sass'' \<in> set (files (registerFragment ''a.sass'' (stylesPlugin ''/v'')))"
    by (simp add: registerFragment_def stylesPlugin_def set_add_def)
  from h m registerFragment_idempotent [of "''a.sass''" "stylesPlugin ''/v''"]
    registerFragment_idempotent [of "''a.sass''" "registerFragment ''a.sass'' (stylesPlugin ''/v'')"]
  show ?thesis by blast
qed

subsection \<open>resolveId in aggregated mode\<close>

text \<open>
  C4, as the code has it. In aggregated mode (\<open>styles = 'expose'\<close>), for a request that
  matches the style entry, \<open>resolveId\<close> calls \<open>awaitResolve()\<close> with no id and without
  awaiting it, and delegates the request with \<open>.css\<close> replaced by \<open>.sass\<close>. When the host
  resolves the request, the resolved id is registered and the hook returns the
  sentinel; when the host answers \<open>null\<close>, nothing is registered and the hook
  returns \<open>null\<close>.
\<close>

theorem resolveId_expose:
  assumes "styles opts = StylesExpose"
    and "style_entry cwd (vuetifyBase w) source importer"
  shows "resolveId_begin opts cwd source importer w =
           (Delegate (replace_css_sass source) importer FromExpose, awaitResolve None None w) \<and>
         resolveId opts cwd host source importer w =
           (case host (replace_css_sass source) importer of
              None \<Rightarrow> (NoResolution, awaitResolve None None w)
            | Some r \<Rightarrow> (OwnId void_id, registerFragment r (awaitResolve None None w)))"
  using assms
  by (simp add: resolveId_def resolveId_begin_def resolveId_resume_def split: option.splits)

theorem resolveId_expose_witness:
  "styles expose_options = StylesExpose \<and>
   style_entry ''/proj'' (vuetifyBase (stylesPlugin ''/proj/node_modules/vuetify''))
     ''vuetify/styles'' None \<and>
   fst (resolveId expose_options ''/proj''
          (host_finds ''/proj/node_modules/vuetify/lib/styles/main.sass'')
          ''vuetify/styles'' None (stylesPlugin ''/proj/node_modules/vuetify'')) =
     OwnId void_id \<and>
   files (snd (resolveId expose_options ''/proj''
          (host_finds ''/proj/node_modules/vuetify/lib/styles/main.sass'')
          ''vuetify/styles'' None (stylesPlugin ''/proj/node_modules/vuetify''))) =
     [''/proj/node_modules/vuetify/lib/styles/main.sass'']"
proof -
  have a: "styles expose_options = StylesExpose" by (simp add: expose_options_def)
  have b: "style_entry ''/proj'' (vuetifyBase (stylesPlugin ''/proj/node_modules/vuetify''))
     ''vuetify/styles'' None" by (simp add: style_entry_def)
  have c: "files (awaitResolve None None (stylesPlugin ''/proj/node_modules/vuetify'')) = []"
    by (simp add: awaitResolve_def stylesPlugin_def awaitBlocking_def setTimeout_def
        clearTimeout_def getPendingModules_def then_promise_def Let_def)
  from resolveId_expose [OF a b,
      of "host_finds ''/proj/node_modules/vuetify/lib/styles/main.sass''"] a b c
  show ?thesis by (simp add: host_finds_def registerFragment_def set_add_def)
qed

text \<open>
  C4, as the claim has it, fails where the host answers \<open>null\<close>: the hook returns \<open>null\<close>,
  not the sentinel.
\<close>

theorem resolveId_expose_counterexample:
  "style_entry ''/proj'' (vuetifyBase (stylesPlugin ''/proj/node_modules/vuetify''))
     ''vuetify/styles'' None \<and>
   fst (resolveId expose_options ''/proj'' host_null ''vuetify/styles'' None
         (stylesPlugin ''/proj/node_modules/vuetify'')) = NoResolution"
  by (simp add: resolveId_def resolveId_begin_def resolveId_resume_def style_entry_def
      expose_options_def host_null_def)

subsection \<open>The load hook\<close>

lemma load_void: "void_re i \<Longrightarrow> load i w = Inr (Content [])"
  by (simp add: load_def)

lemma void_re_query: "dots q \<Longrightarrow> void_re (void_id @ ''?'' @ q)"
  by (simp add: void_re_def startsWith_def)

lemma load_outside:
  "\<not> void_re i \<Longrightarrow> \<not> startsWith i plugin_prefix \<Longrightarrow> load i w = Inr NullResult"
  by (simp add: load_def)

lemma void_not_plugin: "void_re i \<Longrightarrow> \<not> startsWith i plugin_prefix"
  by (auto simp add: void_re_def void_id_def plugin_prefix_def startsWith_iff)

lemma load_throws:
  "startsWith i plugin_prefix \<Longrightarrow> plugin_re_exec i = None \<Longrightarrow> load i w = Inl TypeError"
  using void_not_plugin [of i] by (auto simp add: load_def)

text \<open>
  C10. The hook returns the empty document for the sentinel, with or without a query
  (\<open>load_void\<close>, \<open>void_re_query\<close>), and \<open>null\<close> outside both patterns (\<open>load_outside\<close>). It is
  not total: an id that starts with the prefix of the virtual namespace and does not
  match the expression of line 229 raises a TypeError (\<open>load_throws\<close>). The id of
  another plugin whose namespace starts with the same letters is one such id, the
  prefix alone is another; an id with a line feed is a third, and \<open>resolveId\<close> itself
  hands it out for the request \<open>/plugin-vuetify:a\nb\<close>.
\<close>

theorem load_throws_outside_pattern:
  "load (plugin_prefix @ ''-icons:mdi.js'') w = Inl TypeError \<and>
   load plugin_prefix w = Inl TypeError \<and>
   resolveId_begin opts cwd (''/plugin-vuetify:a'' @ nl @ ''b'') importer w =
     (Done (OwnId (plugin_prefix @ '':a'' @ nl @ ''b'')), w) \<and>
   load (plugin_prefix @ '':a'' @ nl @ ''b'') w = Inl TypeError"
  by (simp add: load_def void_re_def void_id_def plugin_prefix_def startsWith_def
      plugin_re_exec_def resolveId_begin_def style_entry_def endsWith_def nl_def slice_def
      line_terminator_def dots_def split: option.splits)

subsection \<open>resolveId in configured mode\<close>

lemma relative_foo:
  "relative ''/proj'' (join ''/proj/node_modules/vuetify'' ''lib'')
     (replace_css_sass ''/proj/node_modules/vuetify/lib/foo.css'') = ''foo.sass''"
  by (simp add: relative_def join_def normalize_path_def resolve_segs_def toUnix_def
      startsWith_def endsWith_def replace_css_sass_def Let_def)

lemma entry_foo:
  "style_entry ''/proj'' ''/proj/node_modules/vuetify'' ''./foo.css''
     (Some ''/proj/node_modules/vuetify/lib/index.mjs'')"
  by (simp add: style_entry_def isSubdir_def isAbsolute_def relative_def resolve_segs_def
      toUnix_def startsWith_def endsWith_def Let_def)

lemma entry_foo_absolute:
  "style_entry ''/proj'' ''/proj/node_modules/vuetify''
     ''/proj/node_modules/vuetify/lib/foo.css'' (Some ''/proj/src/main.ts'')"
  by (simp add: style_entry_def isSubdir_def isAbsolute_def relative_def resolve_segs_def
      toUnix_def startsWith_def endsWith_def Let_def)

lemma configured_world_simps:
  "vuetifyBase configured_world = ''/proj/node_modules/vuetify''"
  "configFile configured_world = Some ''/proj/settings.scss''"
  "tempFiles configured_world = Map.empty"
  by (simp_all add: configured_world_def configResolved_def config_options_def
      stylesPlugin_def isAbsolute_def join_def normalize_path_def toUnix_def startsWith_def
      endsWith_def Let_def)

text \<open>
  C7. In configured mode the id the hook returns is the namespace prefix followed by the
  path of the resolved file's \<open>.sass\<close> counterpart relative to \<open>lib\<close> under the library
  root: it depends on the resolved file alone. Two requests that the host resolves to
  the same file, whatever their texts, importers and the state of the plugin, get the
  same id. Each of the two resolutions stores its document in the registry under that
  key, adding the key to the keys the registry holds, so both occupy the same slot;
  and when the second follows the first it writes the slot the first wrote, leaving
  the registry as it was.
\<close>

theorem resolveId_configured_deterministic:
  assumes "styles opts = StylesObject cf"
    and "vuetifyBase w2 = vuetifyBase w1"
    and "style_entry cwd (vuetifyBase w1) s1 i1"
    and "style_entry cwd (vuetifyBase w1) s2 i2"
    and "h1 s1 i1 = Some r"
    and "h2 s2 i2 = Some r"
  shows "fst (resolveId opts cwd h1 s1 i1 w1) = fst (resolveId opts cwd h2 s2 i2 w2) \<and>
         fst (resolveId opts cwd h1 s1 i1 w1) =
           OwnId (plugin_prefix @ '':'' @
                    relative cwd (join (vuetifyBase w1) ''lib'') (replace_css_sass r)) \<and>
         tempFiles (snd (resolveId opts cwd h1 s1 i1 w1))
             (relative cwd (join (vuetifyBase w1) ''lib'') (replace_css_sass r)) =
           Some (scssFileContents (useLayers opts) (configFile w1) (replace_css_sass r)) \<and>
         tempFiles (snd (resolveId opts cwd h2 s2 i2 w2))
             (relative cwd (join (vuetifyBase w1) ''lib'') (replace_css_sass r)) =
           Some (scssFileContents (useLayers opts) (configFile w2) (replace_css_sass r)) \<and>
         dom (tempFiles (snd (resolveId opts cwd h1 s1 i1 w1))) =
           insert (relative cwd (join (vuetifyBase w1) ''lib'') (replace_css_sass r))
             (dom (tempFiles w1)) \<and>
         dom (tempFiles (snd (resolveId opts cwd h2 s2 i2 w2))) =
           insert (relative cwd (join (vuetifyBase w1) ''lib'') (replace_css_sass r))
             (dom (tempFiles w2)) \<and>
         (w2 = snd (resolveId opts cwd h1 s1 i1 w1) \<longrightarrow>
            dom (tempFiles (snd (resolveId opts cwd h2 s2 i2 w2))) = dom (tempFiles w2) \<and>
            snd (resolveId opts cwd h2 s2 i2 w2) = w2)"
proof -
  let ?key = "relative cwd (join (vuetifyBase w1) ''lib'') (replace_css_sass r)"
  have r1: "resolveId opts cwd h1 s1 i1 w1 =
      (OwnId (plugin_prefix @ '':'' @ ?key),
       w1\<lparr>tempFiles := (tempFiles w1)
            (?key \<mapsto> scssFileContents (useLayers opts) (configFile w1) (replace_css_sass r))\<rparr>)"
    using assms(1,3,5)
    by (simp add: resolveId_def resolveId_begin_def resolveId_resume_def Let_def)
  have r2: "resolveId opts cwd h2 s2 i2 w2 =
      (OwnId (plugin_prefix @ '':'' @ ?key),
       w2\<lparr>tempFiles := (tempFiles w2)
            (?key \<mapsto> scssFileContents (useLayers opts) (configFile w2) (replace_css_sass r))\<rparr>)"
    using assms(1,2,4,6)
    by (simp add: resolveId_def resolveId_begin_def resolveId_resume_def Let_def)
  have again: "dom (tempFiles (snd (resolveId opts cwd h2 s2 i2 w2))) = dom (tempFiles w2) \<and>
      snd (resolveId opts cwd h2 s2 i2 w2) = w2"
    if "w2 = snd (resolveId opts cwd h1 s1 i1 w1)"
  proof -
    from that r1 have w2: "w2 = w1\<lparr>tempFiles := (tempFiles w1)
        (?key \<mapsto> scssFileContents (useLayers opts) (configFile w1) (replace_css_sass r))\<rparr>"
      by simp
    then have c: "configFile w2 = configFile w1"
      and t: "tempFiles w2 ?key =
        Some (scssFileContents (useLayers opts) (configFile w1) (replace_css_sass r))"
      by simp_all
    have "(tempFiles w2)(?key \<mapsto>
        scssFileContents (useLayers opts) (configFile w2) (replace_css_sass r)) = tempFiles w2"
      using t c by (simp add: fun_upd_idem_iff)
    then show ?thesis by (simp add: r2)
  qed
  show ?thesis
    using again by (simp add: r1 r2)
qed

theorem resolveId_configured_deterministic_witness:
  "fst (resolveId config_options ''/proj''
          (host_finds ''/proj/node_modules/vuetify/lib/foo.css'')
          ''./foo.css'' (Some ''/proj/node_modules/vuetify/lib/index.mjs'') configured_world) =
   fst (resolveId config_options ''/proj''
          (host_finds ''/proj/node_modules/vuetify/lib/foo.css'')
          ''/proj/node_modules/vuetify/lib/foo.css'' (Some ''/proj/src/main.ts'')
          (snd (resolveId config_options ''/proj''
                  (host_finds ''/proj/node_modules/vuetify/lib/foo.css'')
                  ''./foo.css'' (Some ''/proj/node_modules/vuetify/lib/index.mjs'')
                  configured_world))) \<and>
   fst (resolveId config_options ''/proj''
          (host_finds ''/proj/node_modules/vuetify/lib/foo.css'')
          ''./foo.css'' (Some ''/proj/node_modules/vuetify/lib/index.mjs'') configured_world) =
     OwnId (plugin_prefix @ '':foo.sass'') \<and>
   tempFiles (snd (resolveId config_options ''/proj''
          (host_finds ''/proj/node_modules/vuetify/lib/foo.css'')
          ''./foo.css'' (Some ''/proj/node_modules/vuetify/lib/index.mjs'') configured_world))
       ''foo.sass'' =
     Some (''@use '' @ dq @ ''/proj/settings.scss'' @ dq @ nl @
           ''@use '' @ dq @ ''/proj/node_modules/vuetify/lib/foo.sass'' @ dq) \<and>
   tempFiles (snd (resolveId config_options ''/proj''
          (host_finds ''/proj/node_modules/vuetify/lib/foo.css'')
          ''/proj/node_modules/vuetify/lib/foo.css'' (Some ''/proj/src/main.ts'')
          (snd (resolveId config_options ''/proj''
                  (host_finds ''/proj/node_modules/vuetify/lib/foo.css'')
                  ''./foo.css'' (Some ''/proj/node_modules/vuetify/lib/index.mjs'')
                  configured_world))))
       ''foo.sass'' =
     Some (''@use '' @ dq @ ''/proj/settings.scss'' @ dq @ nl @
           ''@use '' @ dq @ ''/proj/node_modules/vuetify/lib/foo.sass'' @ dq) \<and>
   dom (tempFiles (snd (resolveId config_options ''/proj''
          (host_finds ''/proj/node_modules/vuetify/lib/foo.css'')
          ''/proj/node_modules/vuetify/lib/foo.css'' (Some ''/proj/src/main.ts'')
          (snd (resolveId config_options ''/proj''
                  (host_finds ''/proj/node_modules/vuetify/lib/foo.css'')
                  ''./foo.css'' (Some ''/proj/node_modules/vuetify/lib/index.mjs'')
                  configured_world))))) = {''foo.sass''}"
proof -
  let ?h = "host_finds ''/proj/node_modules/vuetify/lib/foo.css''"
  let ?w1 = configured_world
  let ?w2 = "snd (resolveId config_options ''/proj'' ?h ''./foo.css''
                  (Some ''/proj/node_modules/vuetify/lib/index.mjs'') configured_world)"
  let ?r1 = "resolveId config_options ''/proj'' ?h ''./foo.css''
                  (Some ''/proj/node_modules/vuetify/lib/index.mjs'') ?w1"
  let ?r2 = "resolveId config_options ''/proj'' ?h ''/proj/node_modules/vuetify/lib/foo.css''
                  (Some ''/proj/src/main.ts'') ?w2"
  let ?doc = "''@use '' @ dq @ ''/proj/settings.scss'' @ dq @ nl @
           ''@use '' @ dq @ ''/proj/node_modules/vuetify/lib/foo.sass'' @ dq"
  have a: "styles config_options = StylesObject ''settings.scss''"
    by (simp add: config_options_def)
  have c: "style_entry ''/proj'' (vuetifyBase ?w1) ''./foo.css''
     (Some ''/proj/node_modules/vuetify/lib/index.mjs'')"
    by (simp add: configured_world_simps entry_foo)
  have d: "style_entry ''/proj'' (vuetifyBase ?w1) ''/proj/node_modules/vuetify/lib/foo.css''
     (Some ''/proj/src/main.ts'')"
    by (simp add: configured_world_simps entry_foo_absolute)
  have b: "vuetifyBase ?w2 = vuetifyBase ?w1"
    and cf: "configFile ?w2 = configFile ?w1"
    using a c by (simp_all add: resolveId_def resolveId_begin_def resolveId_resume_def
        host_finds_def Let_def)
  have e: "?h ''./foo.css'' (Some ''/proj/node_modules/vuetify/lib/index.mjs'') =
      Some ''/proj/node_modules/vuetify/lib/foo.css''"
    and f: "?h ''/proj/node_modules/vuetify/lib/foo.css'' (Some ''/proj/src/main.ts'') =
      Some ''/proj/node_modules/vuetify/lib/foo.css''"
    by (simp_all add: host_finds_def)
  have key: "relative ''/proj'' (join (vuetifyBase ?w1) ''lib'')
      (replace_css_sass ''/proj/node_modules/vuetify/lib/foo.css'') = ''foo.sass''"
    by (simp add: configured_world_simps relative_foo)
  have doc: "scssFileContents (useLayers config_options) (configFile ?w1)
      (replace_css_sass ''/proj/node_modules/vuetify/lib/foo.css'') = ?doc"
    by (simp add: scssFileContents_def config_options_def configured_world_simps
        interpolate_def replace_css_sass_def endsWith_def)
  note t = resolveId_configured_deterministic [where ?h1.0 = ?h and ?h2.0 = ?h
      and opts = config_options and ?w1.0 = ?w1 and ?w2.0 = ?w2 and cwd = "''/proj''",
      OF a b c d e f]
  note k = t [THEN conjunct1]
  note l = t [THEN conjunct2, THEN conjunct1]
  note m1 = t [THEN conjunct2, THEN conjunct2, THEN conjunct1]
  note m2 = t [THEN conjunct2, THEN conjunct2, THEN conjunct2, THEN conjunct1]
  note d1 = t [THEN conjunct2, THEN conjunct2, THEN conjunct2, THEN conjunct2, THEN conjunct1]
  note d2 = t [THEN conjunct2, THEN conjunct2, THEN conjunct2, THEN conjunct2, THEN conjunct2,
      THEN conjunct2, THEN mp, OF refl, THEN conjunct1]
  from l have l': "fst ?r1 = OwnId (plugin_prefix @ '':foo.sass'')"
    by (simp only: key append_Cons append_Nil)
  from m1 have m1': "tempFiles (snd ?r1) ''foo.sass'' = Some ?doc"
    by (simp only: key doc)
  from m2 have m2': "tempFiles (snd ?r2) ''foo.sass'' = Some ?doc"
    by (simp only: key doc cf)
  from d1 have d1': "dom (tempFiles (snd ?r1)) = {''foo.sass''}"
    by (simp only: key configured_world_simps relative_foo dom_empty)
  from d2 d1' have d3: "dom (tempFiles (snd ?r2)) = {''foo.sass''}"
    by (simp only:)
  from k l' m1' m2' d3 show ?thesis by (simp only: simp_thms)
qed

text \<open>
  C8, as the code has it. In configured mode without layers, when the host resolves the
  request to \<open>r\<close>, the key is the path of \<open>r\<close>'s \<open>.sass\<close> counterpart relative to \<open>lib\<close> under
  the library root, extension included, and the document stored under it is the \<open>@use\<close>
  of the configuration file, a line feed, and the \<open>@use\<close> of the \<open>.sass\<close> counterpart.
\<close>

theorem resolveId_configured:
  assumes "styles opts = StylesObject cf"
    and "useLayers opts \<noteq> Some True"
    and "style_entry cwd (vuetifyBase w) source importer"
    and "host source importer = Some r"
  shows "resolveId opts cwd host source importer w =
           (OwnId (plugin_prefix @ '':'' @
                     relative cwd (join (vuetifyBase w) ''lib'') (replace_css_sass r)),
            w\<lparr>tempFiles := (tempFiles w)
                 (relative cwd (join (vuetifyBase w) ''lib'') (replace_css_sass r) \<mapsto>
                    (''@use '' @ dq @ interpolate (configFile w) @ dq) @
                    (nl @ ''@use '' @ dq @ replace_css_sass r @ dq))\<rparr>)"
  using assms
  by (simp add: resolveId_def resolveId_begin_def resolveId_resume_def scssFileContents_def
      Let_def)

theorem resolveId_configured_witness:
  "styles config_options = StylesObject ''settings.scss'' \<and>
   useLayers config_options \<noteq> Some True \<and>
   style_entry ''/proj'' (vuetifyBase configured_world) ''./foo.css''
     (Some ''/proj/node_modules/vuetify/lib/index.mjs'') \<and>
   host_finds ''/proj/node_modules/vuetify/lib/foo.css'' ''./foo.css''
     (Some ''/proj/node_modules/vuetify/lib/index.mjs'') =
     Some ''/proj/node_modules/vuetify/lib/foo.css'' \<and>
   fst (resolveId config_options ''/proj''
          (host_finds ''/proj/node_modules/vuetify/lib/foo.css'')
          ''./foo.css'' (Some ''/proj/node_modules/vuetify/lib/index.mjs'') configured_world) =
     OwnId (plugin_prefix @ '':foo.sass'') \<and>
   tempFiles (snd (resolveId config_options ''/proj''
          (host_finds ''/proj/node_modules/vuetify/lib/foo.css'')
          ''./foo.css'' (Some ''/proj/node_modules/vuetify/lib/index.mjs'') configured_world))
     ''foo.sass'' =
     Some (''@use '' @ dq @ ''/proj/settings.scss'' @ dq @ nl @
           ''@use '' @ dq @ ''/proj/node_modules/vuetify/lib/foo.sass'' @ dq)"
proof -
  have a: "styles config_options = StylesObject ''settings.scss''"
    and b: "useLayers config_options \<noteq> Some True"
    by (simp_all add: config_options_def)
  have c: "style_entry ''/proj'' (vuetifyBase configured_world) ''./foo.css''
     (Some ''/proj/node_modules/vuetify/lib/index.mjs'')"
    by (simp add: configured_world_simps entry_foo)
  have d: "host_finds ''/proj/node_modules/vuetify/lib/foo.css'' ''./foo.css''
     (Some ''/proj/node_modules/vuetify/lib/index.mjs'') =
     Some ''/proj/node_modules/vuetify/lib/foo.css''"
    by (simp add: host_finds_def)
  have e: "replace_css_sass ''/proj/node_modules/vuetify/lib/foo.css'' =
      ''/proj/node_modules/vuetify/lib/foo.sass''"
    by (simp add: replace_css_sass_def endsWith_def)
  from resolveId_configured [where host = "host_finds ''/proj/node_modules/vuetify/lib/foo.css''"
      and opts = config_options and w = configured_world and cwd = "''/proj''", OF a b c d]
    a b c d
  show ?thesis
    using relative_foo by (simp add: configured_world_simps interpolate_def e)
qed

text \<open>
  C8, as the claim has it, fails on the key: for \<open>foo.css\<close> under \<open>lib\<close> the hook returns
  the id of the key \<open>foo.sass\<close>, and the registry holds nothing under \<open>foo\<close>.
\<close>

theorem resolveId_configured_counterexample:
  "fst (resolveId config_options ''/proj''
          (host_finds ''/proj/node_modules/vuetify/lib/foo.css'')
          ''./foo.css'' (Some ''/proj/node_modules/vuetify/lib/index.mjs'') configured_world) =
     OwnId (plugin_prefix @ '':foo.sass'') \<and>
   tempFiles (snd (resolveId config_options ''/proj''
          (host_finds ''/proj/node_modules/vuetify/lib/foo.css'')
          ''./foo.css'' (Some ''/proj/node_modules/vuetify/lib/index.mjs'') configured_world))
     ''foo'' = None"
  by (simp add: resolveId_def resolveId_begin_def resolveId_resume_def entry_foo relative_foo
      configured_world_simps config_options_def host_finds_def Let_def)

subsection \<open>The finalizer's touches\<close>

lemma set_touched:
  "f \<in> set (touched srv) \<longleftrightarrow>
     f \<noteq> [] \<and>
     (\<exists>ms imps. cacheFileModules srv = Some ms \<and> imps \<in> set ms \<and> Some f \<in> set imps)"
proof (cases "cacheFileModules srv")
  case None
  then show ?thesis by (simp add: touched_def)
next
  case (Some ms)
  have "f \<in> set (touched srv) \<longleftrightarrow>
      (\<exists>imps \<in> set ms. \<exists>x \<in> set imps. x = Some f \<and> f \<noteq> [])"
    using Some by (auto simp add: touched_def split: option.splits if_splits)
  then show ?thesis using Some by auto
qed

lemma basic_needsTouch [simp]:
  "needsTouch (enqueue js w) = needsTouch w"
  "needsTouch (emit es w) = needsTouch w"
  "needsTouch (then_promise p r w) = needsTouch w"
  "needsTouch (settle p s w) = needsTouch w"
  "needsTouch (clearTimeout h w) = needsTouch w"
  "needsTouch (setTimeout w) = needsTouch w"
  by (simp_all add: enqueue_def emit_def then_promise_def settle_def clearTimeout_def
      setTimeout_def split: option.splits pstate.splits)

lemma basic_files [simp]:
  "files (enqueue js w) = files w"
  "files (emit es w) = files w"
  "files (then_promise p r w) = files w"
  "files (settle p s w) = files w"
  "files (clearTimeout h w) = files w"
  "files (setTimeout w) = files w"
  by (simp_all add: enqueue_def emit_def then_promise_def settle_def clearTimeout_def
      setTimeout_def split: option.splits pstate.splits)

lemma basic_effects [simp]:
  "effects (enqueue js w) = effects w"
  "effects (emit es w) = rev es @ effects w"
  "effects (then_promise p r w) = effects w"
  "effects (settle p s w) = effects w"
  "effects (clearTimeout h w) = effects w"
  "effects (setTimeout w) = effects w"
  by (simp_all add: enqueue_def emit_def then_promise_def settle_def clearTimeout_def
      setTimeout_def split: option.splits pstate.splits)

lemma filter_touch_map [simp]:
  "filter is_touch (map (\<lambda>(k, v). TransformRequest k) ms) = []"
  "filter is_touch (map ForcedLoad ids) = []"
  "filter is_touch (map Utimes fs) = map Utimes fs"
  by (simp_all add: filter_map comp_def split_def)

lemma getPendingModules_touch [simp]:
  "needsTouch (snd (getPendingModules a w)) = needsTouch w"
  "files (snd (getPendingModules a w)) = files w"
  "filter is_touch (effects (snd (getPendingModules a w))) = filter is_touch (effects w)"
  by (simp_all add: getPendingModules_def Let_def rev_filter [symmetric] split: option.splits)

lemma awaitBlocking_touch [simp]:
  "needsTouch (awaitBlocking w) = needsTouch w"
  "files (awaitBlocking w) = files w"
  "filter is_touch (effects (awaitBlocking w)) = filter is_touch (effects w)"
  by (simp_all add: awaitBlocking_def Let_def split_def split: option.splits)

lemma call_resolve_touch [simp]:
  "needsTouch (call_resolve v w) = needsTouch w"
  "files (call_resolve v w) = files w"
  "filter is_touch (effects (call_resolve v w)) = filter is_touch (effects w)"
  by (simp_all add: call_resolve_def split: option.splits)

lemma probe_touch [simp]:
  "needsTouch (probe_wakes a w) = needsTouch w"
  "files (probe_wakes a w) = files w"
  "filter is_touch (effects (probe_wakes a w)) = filter is_touch (effects w)"
  "needsTouch (race_settles a r w) = needsTouch w"
  "files (race_settles a r w) = files w"
  "filter is_touch (effects (race_settles a r w)) = filter is_touch (effects w)"
  by (simp_all add: probe_wakes_def race_settles_def Let_def rev_filter [symmetric]
      split: option.splits probe.splits)

lemma awaitResolve_touch [simp]:
  "needsTouch (awaitResolve c i w) = needsTouch w"
  "files (awaitResolve c i w) = files w"
  "filter is_touch (effects (awaitResolve c i w)) = filter is_touch (effects w)"
  by (simp_all add: awaitResolve_def Let_def split: option.splits)

lemma awaitResolve_write_touch [simp]:
  "needsTouch (awaitResolve_write c p w) = needsTouch w"
  "files (awaitResolve_write c p w) = files w"
  "filter is_touch (effects (awaitResolve_write c p w)) = filter is_touch (effects w)"
  by (simp_all add: awaitResolve_write_def Let_def)

lemma awaitResolve_finish_touch [simp]:
  "needsTouch (awaitResolve_finish c p w) = (needsTouch w \<and> server w = None)"
  "files (awaitResolve_finish c p w) = files w"
  "\<not> needsTouch w \<Longrightarrow>
     filter is_touch (effects (awaitResolve_finish c p w)) = filter is_touch (effects w)"
  by (auto simp add: awaitResolve_finish_def Let_def split: option.splits)

lemma run_job_needsTouch: "needsTouch (run_job j w) \<longrightarrow> needsTouch w"
proof (cases "(j, w)" rule: run_job.cases)
qed (simp_all add: awaitBlocking_continue_def split: settlement.splits option.splits)

lemma run_job_files: "files (run_job j w) = files w"
proof (cases "(j, w)" rule: run_job.cases)
qed (simp_all add: awaitBlocking_continue_def split: settlement.splits option.splits)

lemma run_job_touch:
  "\<not> needsTouch w \<Longrightarrow> filter is_touch (effects (run_job j w)) = filter is_touch (effects w)"
proof (cases "(j, w)" rule: run_job.cases)
qed (simp_all add: awaitBlocking_continue_def split: settlement.splits option.splits)

text \<open>
  While \<open>needsTouch\<close> is false, a step that registers no new fragment keeps it false,
  keeps the fragments, and touches nothing.
\<close>

lemma step_touch:
  assumes "\<not> needsTouch w" and "\<forall>path. e = Register path \<longrightarrow> path \<in> set (files w)"
  shows "\<not> needsTouch (step e w) \<and> set (files w) \<subseteq> set (files (step e w)) \<and>
         filter is_touch (effects (step e w)) = filter is_touch (effects w)"
proof (cases e)
  case Tick
  show ?thesis
  proof (cases "microtasks w")
    case Nil
    with Tick assms show ?thesis by simp
  next
    case (Cons j js)
    have "\<not> needsTouch (w\<lparr>microtasks := js\<rparr>)" using assms by simp
    from run_job_needsTouch [of j "w\<lparr>microtasks := js\<rparr>"]
      run_job_files [of j "w\<lparr>microtasks := js\<rparr>"] run_job_touch [OF this, of j]
    show ?thesis using Tick Cons assms by simp
  qed
next
  case (Call_awaitResolve c i)
  then show ?thesis using assms by simp
next
  case (Register path)
  then show ?thesis using assms by (simp add: registerFragment_def)
next
  case (ConfigureServer srv)
  then show ?thesis using assms by simp
next
  case (BuildStart this)
  then show ?thesis using assms by simp
next
  case (TimerFires h)
  then show ?thesis using assms by (simp add: timeout_callback_def)
next
  case (ProbeWakes a)
  then show ?thesis using assms by simp
next
  case (RaceSettles a r)
  then show ?thesis using assms by simp
next
  case (WriteSettles p)
  then show ?thesis using assms
    by (cases "find (\<lambda>(c, q). q = p) (writes w)") auto
qed

lemma run_no_touch:
  assumes "\<not> needsTouch w"
    and "\<forall>path. Register path \<in> set evs \<longrightarrow> path \<in> set (files w)"
  shows "\<not> needsTouch (run evs w) \<and>
         filter is_touch (effects (run evs w)) = filter is_touch (effects w)"
  using assms
proof (induction evs arbitrary: w)
  case Nil
  then show ?case by (simp add: run_def)
next
  case (Cons e evs)
  have s: "\<not> needsTouch (step e w) \<and> set (files w) \<subseteq> set (files (step e w)) \<and>
         filter is_touch (effects (step e w)) = filter is_touch (effects w)"
    using Cons.prems by (intro step_touch) auto
  moreover have "\<forall>path. Register path \<in> set evs \<longrightarrow> path \<in> set (files (step e w))"
    using Cons.prems(2) s by auto
  ultimately show ?case using Cons.IH [of "step e w"] by (simp add: run_def)
qed

text \<open>
  C9. Under a dev server, the end of \<open>awaitResolve\<close> (lines 110 to 123) touches, when
  \<open>needsTouch\<close> is true, the file of every importer of every module of the aggregated
  file (every importer that has a file), and touches nothing when it is false; the
  files it touches are exactly those. It leaves \<open>needsTouch\<close> false. From there on,
  whatever happens (further settle cycles included), nothing is touched as long as no
  new fragment is registered; and registering a new fragment makes \<open>needsTouch\<close> true.
\<close>

theorem awaitResolve_finish_touches:
  assumes "server w = Some srv"
  shows "effects (awaitResolve_finish c p w) =
           (if needsTouch w then rev (map Utimes (touched srv)) else []) @ effects w \<and>
         (\<forall>f. f \<in> set (touched srv) \<longleftrightarrow>
            f \<noteq> [] \<and> (\<exists>ms imps. cacheFileModules srv = Some ms \<and> imps \<in> set ms \<and>
                         Some f \<in> set imps)) \<and>
         \<not> needsTouch (awaitResolve_finish c p w) \<and>
         (\<forall>evs. (\<forall>path. Register path \<in> set evs \<longrightarrow> path \<in> set (files w)) \<longrightarrow>
            filter is_touch (effects (run evs (awaitResolve_finish c p w))) =
            filter is_touch (effects (awaitResolve_finish c p w))) \<and>
         (\<forall>path. path \<notin> set (files w) \<longrightarrow> needsTouch (registerFragment path w))"
proof -
  have a: "effects (awaitResolve_finish c p w) =
           (if needsTouch w then rev (map Utimes (touched srv)) else []) @ effects w"
    and b: "\<not> needsTouch (awaitResolve_finish c p w)"
    using assms by (simp_all add: awaitResolve_finish_def Let_def split: option.splits)
  have "filter is_touch (effects (run evs (awaitResolve_finish c p w))) =
            filter is_touch (effects (awaitResolve_finish c p w))"
    if "\<forall>path. Register path \<in> set evs \<longrightarrow> path \<in> set (files w)" for evs
    using run_no_touch [OF b, of evs] that by simp
  moreover have "needsTouch (registerFragment path w)" if "path \<notin> set (files w)" for path
    using that by (simp add: registerFragment_def)
  ultimately show ?thesis using a b set_touched by blast
qed

theorem awaitResolve_finish_touches_witness:
  "server dev_world = Some dev_server \<and> needsTouch dev_world \<and>
   effects (awaitResolve_finish (Some 1) 0 dev_world) = [Utimes ''/proj/src/App.vue''] \<and>
   \<not> needsTouch (awaitResolve_finish (Some 1) 0 dev_world) \<and>
   filter is_touch (effects (run
       [Register ''/proj/node_modules/vuetify/lib/styles/main.sass'',
        Call_awaitResolve (Some 2) (Some ''/proj/src/a.scss''), Tick, Tick, Tick, Tick,
        WriteSettles 0, Tick, Tick]
       (awaitResolve_finish (Some 1) 0 dev_world))) = [Utimes ''/proj/src/App.vue'']"
proof -
  let ?evs = "[Register ''/proj/node_modules/vuetify/lib/styles/main.sass'',
        Call_awaitResolve (Some 2) (Some ''/proj/src/a.scss''), Tick, Tick, Tick, Tick,
        WriteSettles 0, Tick, Tick]"
  have s: "server dev_world = Some dev_server" and n: "needsTouch dev_world"
    and e: "effects dev_world = []"
    and f: "files dev_world = [''/proj/node_modules/vuetify/lib/styles/main.sass'']"
    by (simp_all add: dev_world_def registerFragment_def stylesPlugin_def set_add_def)
  have t: "touched dev_server = [''/proj/src/App.vue'']"
    by (simp add: touched_def dev_server_def)
  have r: "\<forall>path. Register path \<in> set ?evs \<longrightarrow> path \<in> set (files dev_world)"
    by (simp add: f)
  from awaitResolve_finish_touches [OF s, of "Some 1" 0] r s n e t
  show ?thesis by simp
qed

subsection \<open>The shadow follows the world\<close>

lemma shadow_frame [simp]:
  "shadow_of (w\<lparr>timers := a1\<rparr>) = shadow_of w"
  "shadow_of (w\<lparr>next_timer := a2\<rparr>) = shadow_of w"
  "shadow_of (w\<lparr>timeout := a3\<rparr>) = shadow_of w"
  "shadow_of (w\<lparr>anys := a4\<rparr>) = shadow_of w"
  "shadow_of (w\<lparr>next_any := a5\<rparr>) = shadow_of w"
  "shadow_of (w\<lparr>sleeping := a6\<rparr>) = shadow_of w"
  "shadow_of (w\<lparr>racing := a7\<rparr>) = shadow_of w"
  "shadow_of (w\<lparr>pendingModules := a8\<rparr>) = shadow_of w"
  "shadow_of (w\<lparr>blockingModules := a9\<rparr>) = shadow_of w"
  "shadow_of (w\<lparr>server := b1\<rparr>) = shadow_of w"
  "shadow_of (w\<lparr>pluginContext := b2\<rparr>) = shadow_of w"
  "shadow_of (w\<lparr>needsTouch := b3\<rparr>) = shadow_of w"
  "shadow_of (w\<lparr>files := b4\<rparr>) = shadow_of w"
  "shadow_of (w\<lparr>promise := b5\<rparr>) = shadow_of w"
  "shadow_of (w\<lparr>resolve := b6\<rparr>) = shadow_of w"
  by (simp_all add: shadow_of_def)

lemma shadow_updates [simp]:
  "shadow_of (w\<lparr>microtasks := js\<rparr>) = (shadow_of w)\<lparr>s_jobs := filter caller_job js\<rparr>"
  "shadow_of (w\<lparr>promises := ps\<rparr>) = (shadow_of w)\<lparr>s_promises := map caller_part ps\<rparr>"
  "shadow_of (w\<lparr>writes := ws\<rparr>) = (shadow_of w)\<lparr>s_writes := ws\<rparr>"
  "shadow_of (w\<lparr>effects := es\<rparr>) = (shadow_of w)\<lparr>s_effects := filter observable es\<rparr>"
  by (simp_all add: shadow_of_def)

lemma shadow_enqueue [simp]:
  "shadow_of (enqueue js w) = (shadow_of w)\<lparr>s_jobs := s_jobs (shadow_of w) @ filter caller_job js\<rparr>"
  by (simp add: shadow_of_def enqueue_def)

lemma shadow_emit [simp]:
  "shadow_of (emit es w) =
     (shadow_of w)\<lparr>s_effects := filter observable (rev es) @ s_effects (shadow_of w)\<rparr>"
  by (simp add: shadow_of_def emit_def)

lemma shadow_fields:
  "s_promises (shadow_of w) = map caller_part (promises w)"
  "s_jobs (shadow_of w) = filter caller_job (microtasks w)"
  "s_writes (shadow_of w) = writes w"
  "s_effects (shadow_of w) = filter observable (effects w)"
  by (simp_all add: shadow_of_def)

lemma shadow_eqI:
  "map caller_part (promises w') = map caller_part (promises w) \<Longrightarrow>
   filter caller_job (microtasks w') = filter caller_job (microtasks w) \<Longrightarrow>
   writes w' = writes w \<Longrightarrow>
   filter observable (effects w') = filter observable (effects w) \<Longrightarrow>
   shadow_of w' = shadow_of w"
  by (simp add: shadow_of_def)

lemma shadow_then_any [simp]:
  "shadow_of (then_promise p (AnyElement a) w) = shadow_of w"
  by (rule shadow_eqI)
    (auto simp add: then_promise_def enqueue_def map_update list_update_same_conv
      split: pstate.splits)

lemma shadow_then:
  "caller_reaction r \<Longrightarrow> shadow_of (then_promise p r w) = s_then p r (shadow_of w)"
  by (auto simp add: then_promise_def s_then_def map_update shadow_fields split: pstate.splits)

lemma filter_caller_job_map:
  "filter caller_job (map (\<lambda>r. Reaction r st) rs) = map (\<lambda>r. Reaction r st) (filter caller_reaction rs)"
  by (induction rs) auto

lemma shadow_settle: "shadow_of (settle p st w) = s_settle p st (shadow_of w)"
  by (auto simp add: settle_def s_settle_def map_update filter_caller_job_map shadow_fields
      split: pstate.splits)

lemma shadow_timers [simp]:
  "shadow_of (clearTimeout h w) = shadow_of w"
  "shadow_of (setTimeout w) = shadow_of w"
  by (simp_all add: clearTimeout_def setTimeout_def split: option.splits)

lemma filter_observable_map [simp]:
  "filter observable (map (\<lambda>(k, v). TransformRequest k) ms) = []"
  "filter observable (map ForcedLoad ids) = []"
  "filter observable (map Utimes fs) = []"
  by (simp_all add: filter_map comp_def split_def)

lemma shadow_getPendingModules [simp]:
  "shadow_of (snd (getPendingModules a w)) = shadow_of w"
  by (simp add: getPendingModules_def Let_def rev_filter [symmetric] split: option.splits)

lemma shadow_awaitBlocking [simp]: "shadow_of (awaitBlocking w) = shadow_of w"
  by (simp add: awaitBlocking_def Let_def split_def split: option.splits)

lemma shadow_probe [simp]:
  "shadow_of (probe_wakes a w) = shadow_of w"
  "shadow_of (race_settles a r w) = shadow_of w"
  by (simp_all add: probe_wakes_def race_settles_def Let_def rev_filter [symmetric]
      split: option.splits probe.splits)

lemma shadow_call_resolve:
  "shadow_of (call_resolve v w) =
     (case resolve w of None \<Rightarrow> shadow_of w | Some p \<Rightarrow> s_settle p (Fulfilled (Bool v)) (shadow_of w))"
  by (simp add: call_resolve_def shadow_settle split: option.splits)

lemma shadow_awaitBlocking_continue:
  "shadow_of (awaitBlocking_continue v w) =
     (if truthy v then shadow_of w
      else case resolve w of
             None \<Rightarrow> shadow_of w
           | Some p \<Rightarrow> s_settle p (Fulfilled (Bool False)) (shadow_of w))"
  by (simp add: awaitBlocking_continue_def shadow_call_resolve)

lemma resolve_emit [simp]: "resolve (emit es w) = resolve w"
  by (simp add: emit_def)

lemma update_last_map: "(map f xs @ [a])[length xs := b] = map f xs @ [b]"
  by (metis length_map list_update_length)

lemma shadow_timeout_callback:
  "shadow_of (timeout_callback w) =
     (case resolve w of
        None \<Rightarrow> shadow_of w
      | Some p \<Rightarrow> s_settle p (Fulfilled (Bool False)) (shadow_of w))"
  by (simp add: timeout_callback_def shadow_call_resolve split: option.splits)

lemma shadow_awaitResolve_join:
  "promise w = Some p \<Longrightarrow> shadow_of (awaitResolve c i w) = shadow_of w"
  by (simp add: awaitResolve_def Let_def split: option.splits)

lemma length_promises_awaitBlocking [simp]:
  "length (promises (awaitBlocking w)) = length (promises w)"
  using arg_cong [OF shadow_awaitBlocking, of s_promises w, unfolded shadow_fields]
  by (metis length_map)

lemma shadow_awaitResolve_create:
  assumes "promise w = None"
  shows "shadow_of (awaitResolve c i w) =
     (shadow_of w)\<lparr>s_promises := s_promises (shadow_of w) @
        [Pending [AwaitPromise c (length (promises w))]]\<rparr>"
proof -
  define w1 where "w1 = (case i of None \<Rightarrow> w
      | Some x \<Rightarrow> if x = [] then w else w\<lparr>blockingModules := set_add x (blockingModules w)\<rparr>)"
  have w1: "promise w1 = None" "promises w1 = promises w" "shadow_of w1 = shadow_of w"
    using assms by (simp_all add: w1_def split: option.splits)
  define p where "p = length (promises w)"
  define w2 where "w2 = w1\<lparr>promises := promises w1 @ [Pending []], promise := Some p,
                        resolve := Some p\<rparr>"
  have a: "awaitResolve c i w = then_promise p (AwaitPromise c p) (awaitBlocking w2)"
    using w1 by (simp add: awaitResolve_def Let_def w1_def [symmetric] p_def w2_def)
  have s2: "shadow_of w2 = (shadow_of w)\<lparr>s_promises := s_promises (shadow_of w) @ [Pending []]\<rparr>"
    by (simp add: w2_def w1 shadow_fields)
  have "shadow_of (awaitResolve c i w) = s_then p (AwaitPromise c p) (shadow_of w2)"
    by (simp add: a shadow_then)
  also have "\<dots> = (shadow_of w)\<lparr>s_promises := s_promises (shadow_of w) @
        [Pending [AwaitPromise c p]]\<rparr>"
    by (simp add: s2 s_then_def shadow_fields p_def nth_append update_last_map)
  finally show ?thesis by (simp add: p_def)
qed

lemma shadow_awaitResolve_write:
  "shadow_of (awaitResolve_write c p w) =
     (shadow_of w)\<lparr>s_effects := WriteStyles p (files w) # s_effects (shadow_of w),
                   s_writes := s_writes (shadow_of w) @ [(c, p)]\<rparr>"
  by (simp add: awaitResolve_write_def Let_def shadow_fields clearTimeout_def emit_def
      split: option.splits)

lemma shadow_awaitResolve_finish:
  "shadow_of (awaitResolve_finish c p w) =
     (shadow_of w)\<lparr>s_jobs := s_jobs (shadow_of w) @
        (case c of None \<Rightarrow> [] | Some h \<Rightarrow> [ResumeCaller h p (Fulfilled Null)])\<rparr>"
  by (simp add: awaitResolve_finish_def Let_def rev_filter [symmetric] split: option.splits)

subsection \<open>The order of writes and resumptions is kept\<close>

lemma guarded_mono: "guarded W js \<Longrightarrow> W \<subseteq> W' \<Longrightarrow> guarded W' js"
proof (induction W js arbitrary: W' rule: guarded.induct)
  case (2 W c p v js)
  from 2(3) have "insert p W \<subseteq> insert p W'" by auto
  with 2(1) [of "insert p W'"] 2(2) show ?case by simp
qed auto

lemma writers_append [simp]: "writers (js @ js') = writers js @ writers js'"
  by (induction js rule: writers.induct) auto

lemma guarded_append:
  "guarded W (js @ js') \<longleftrightarrow> guarded W js \<and> guarded (W \<union> set (writers js)) js'"
  by (induction W js rule: guarded.induct) auto

lemma guarded_joins:
  "\<forall>r \<in> set rs. joins p r \<Longrightarrow> p \<in> W \<Longrightarrow> guarded W (map (\<lambda>r. Reaction r st) rs)"
proof (induction rs)
  case Nil
  then show ?case by simp
next
  case (Cons r rs)
  then show ?case by (cases "(p, r)" rule: joins.cases; cases st) auto
qed

lemma guarded_creator_first:
  "creator_first p rs \<Longrightarrow> guarded W (map (\<lambda>r. Reaction r (Fulfilled v)) rs)"
  by (cases "(p, rs)" rule: creator_first.cases) (auto simp add: guarded_joins)

lemma guarded_rejected: "guarded W (map (\<lambda>r. Reaction r Rejected) rs)"
proof (induction rs)
  case Nil
  then show ?case by simp
next
  case (Cons r rs)
  then show ?case by (cases r) auto
qed

lemma writers_creator_first:
  "creator_first p rs \<Longrightarrow> p \<in> set (writers (map (\<lambda>r. Reaction r (Fulfilled v)) rs))"
  by (cases "(p, rs)" rule: creator_first.cases) auto

lemma promise_ok_mono: "promise_ok W p ps \<Longrightarrow> W \<subseteq> W' \<Longrightarrow> promise_ok W' p ps"
  by (cases "(W, p, ps)" rule: promise_ok.cases) auto

lemma creator_first_snoc:
  "creator_first p rs \<Longrightarrow> joins p r \<Longrightarrow> creator_first p (rs @ [r])"
  by (cases "(p, rs)" rule: creator_first.cases) auto

lemma ordered_settle: "ordered s \<Longrightarrow> ordered (s_settle p st s)"
proof (cases "p < length (s_promises s)")
  case False
  assume "ordered s" with False show ?thesis by (simp add: s_settle_def)
next
  case True
  assume o: "ordered s"
  show ?thesis
  proof (cases "s_promises s ! p")
    case (Settled x)
    with o True show ?thesis by (simp add: s_settle_def)
  next
    case (Pending rs)
    let ?W = "set (written (s_effects s))"
    from o True Pending have cf: "creator_first p rs"
      unfolding ordered_def by (metis promise_ok.simps(1))
    have g: "guarded (?W \<union> set (writers (s_jobs s))) (map (\<lambda>r. Reaction r st) rs)"
      by (cases st) (simp_all add: guarded_creator_first [OF cf] guarded_rejected)
    have st: "promise_ok (?W \<union> (set (writers (s_jobs s)) \<union> set (writers (map (\<lambda>r. Reaction r st) rs)))) p (Settled st)"
      by (cases st) (simp_all add: writers_creator_first [OF cf])
    have other: "promise_ok (?W \<union> (set (writers (s_jobs s)) \<union> set (writers (map (\<lambda>r. Reaction r st) rs)))) q
        (s_promises s ! q)" if "q < length (s_promises s)" for q
      using o that unfolding ordered_def by (blast intro: promise_ok_mono)
    show ?thesis
      using o True Pending g st other
      by (auto simp add: ordered_def s_settle_def guarded_append nth_list_update)
  qed
qed

lemma ordered_then_result:
  assumes o: "ordered s"
  shows "ordered (s_then p (ResolveResult c p) s)"
proof (cases "p < length (s_promises s)")
  case False
  with o show ?thesis by (simp add: s_then_def)
next
  case True
  from o True have ok: "promise_ok (set (written (s_effects s)) \<union> set (writers (s_jobs s))) p
      (s_promises s ! p)"
    unfolding ordered_def by blast
  show ?thesis
  proof (cases "s_promises s ! p")
    case (Pending rs)
    with ok have "creator_first p (rs @ [ResolveResult c p])"
      by (simp add: creator_first_snoc)
    with o True Pending show ?thesis
      by (auto simp add: ordered_def s_then_def nth_list_update)
  next
    case (Settled st)
    show ?thesis
    proof (cases st)
      case (Fulfilled v)
      with ok Settled have "p \<in> set (written (s_effects s)) \<union> set (writers (s_jobs s))"
        by simp
      with o True Settled Fulfilled show ?thesis
        by (auto simp add: ordered_def s_then_def guarded_append)
    next
      case Rejected
      with o True Settled show ?thesis
        by (auto simp add: ordered_def s_then_def guarded_append)
    qed
  qed
qed

lemma ordered_create:
  assumes o: "ordered s"
  shows "ordered (s\<lparr>s_promises := s_promises s @ [Pending [AwaitPromise c (length (s_promises s))]]\<rparr>)"
  using o by (auto simp add: ordered_def nth_append)

lemma ordered_pop_free:
  assumes "ordered s" and "s_jobs s = js"
  shows "ordered (s\<lparr>s_jobs := js\<rparr>)"
  using assms by (auto simp add: ordered_def)

lemma ordered_write:
  assumes o: "ordered s" and j: "s_jobs s = Reaction (AwaitPromise c p) (Fulfilled v) # js"
  shows "ordered (s\<lparr>s_jobs := js, s_effects := WriteStyles p fs # s_effects s,
                   s_writes := s_writes s @ [(c, p)]\<rparr>)"
proof -
  let ?W = "set (written (s_effects s))"
  have g: "guarded (insert p ?W) js" using o j by (simp add: ordered_def)
  have w: "insert p ?W \<union> set (writers js) = ?W \<union> set (writers (s_jobs s))"
    using j by auto
  show ?thesis
    using o g w by (auto simp add: ordered_def)
qed

lemma ordered_pop_push:
  assumes o: "ordered s" and j: "s_jobs s = j # js"
    and n: "writers [j] = []"
    and x: "guarded (set (written (s_effects s)) \<union> set (writers js)) xs"
  shows "ordered (s\<lparr>s_jobs := js @ xs\<rparr>)"
proof -
  let ?W = "set (written (s_effects s))"
  have "guarded ?W (j # js)" using o j by (simp add: ordered_def)
  then have g: "guarded ?W js"
    using n by (cases "(?W, j # js)" rule: guarded.cases) auto
  have w: "set (writers (s_jobs s)) = set (writers js)"
    using n j writers_append [of "[j]" js] by simp
  have "promise_ok (?W \<union> set (writers (js @ xs))) q (s_promises s ! q)"
    if "q < length (s_promises s)" for q
    using o that w unfolding ordered_def by (auto intro: promise_ok_mono)
  with o g x show ?thesis by (auto simp add: ordered_def guarded_append)
qed

lemma ordered_resume:
  assumes o: "ordered s" and j: "s_jobs s = ResumeCaller h p st # js"
  shows "ordered (s\<lparr>s_jobs := js,
           s_effects := (case st of Fulfilled v \<Rightarrow> Resumed h p v | Rejected \<Rightarrow> Threw h p) #
                        s_effects s\<rparr>)"
  using o j by (cases st) (auto simp add: ordered_def)

lemma ordered_write_settles:
  assumes o: "ordered s" and m: "(c, p) \<in> set (s_writes s)"
  shows "ordered (s\<lparr>s_writes := filter (\<lambda>(c, q). q \<noteq> p) (s_writes s),
                   s_jobs := s_jobs s @ [ContinueAfterWrite c p]\<rparr>)"
proof -
  have "p \<in> set (written (s_effects s))" using o m by (auto simp add: ordered_def)
  with o show ?thesis by (auto simp add: ordered_def guarded_append)
qed

lemma ordered_run_job:
  assumes o: "ordered (shadow_of w)" and m: "microtasks w = j # js"
  shows "ordered (shadow_of (run_job j (w\<lparr>microtasks := js\<rparr>)))"
proof -
  let ?s = "shadow_of w"
  let ?js = "filter caller_job js"
  let ?W = "set (written (s_effects ?s))"
  have sj: "s_jobs ?s = (if caller_job j then j # ?js else ?js)"
    using m by (simp add: shadow_fields)
  have free: "shadow_of (w\<lparr>microtasks := js\<rparr>) = ?s" if "\<not> caller_job j"
    using that sj by (simp add: shadow_of_def)
  have g: "guarded ?W (s_jobs ?s)" using o by (simp add: ordered_def)
  show ?thesis
  proof (cases j)
    case (Reaction r st)
    show ?thesis
    proof (cases r)
      case (AnyElement a)
      with Reaction have "shadow_of (run_job j (w\<lparr>microtasks := js\<rparr>)) = ?s"
        using free by (simp split: settlement.splits)
      with o show ?thesis by simp
    next
      case (AwaitPromise c p)
      show ?thesis
      proof (cases st)
        case (Fulfilled v)
        have "s_jobs ?s = Reaction (AwaitPromise c p) (Fulfilled v) # ?js"
          using sj Reaction AwaitPromise Fulfilled by simp
        from ordered_write [OF o this, of "files w"] show ?thesis
          using Reaction AwaitPromise Fulfilled by (simp add: shadow_awaitResolve_write)
      next
        case Rejected
        have s: "s_jobs ?s = j # ?js" and n: "writers [j] = []"
          using sj Reaction AwaitPromise Rejected by simp_all
        have "ordered (?s\<lparr>s_jobs := ?js @ []\<rparr>)"
          and "ordered (?s\<lparr>s_jobs := ?js @ [ResumeCaller h p Rejected]\<rparr>)" for h
          by (intro ordered_pop_push [OF o s n]; simp)+
        then show ?thesis
          using Reaction AwaitPromise Rejected by (simp split: option.splits)
      qed
    next
      case (ResolveResult c p)
      have s: "s_jobs ?s = j # ?js" and n: "writers [j] = []"
        using sj Reaction ResolveResult by (simp_all split: settlement.splits)
      have p: "p \<in> ?W" if "st = Fulfilled v" for v
        using g s Reaction ResolveResult that by simp
      have "ordered (?s\<lparr>s_jobs := ?js @ []\<rparr>)"
        and "ordered (?s\<lparr>s_jobs := ?js @ [ResumeCaller h p st]\<rparr>)" for h
        using p by (intro ordered_pop_push [OF o s n]; cases st; simp)+
      then show ?thesis
        using Reaction ResolveResult by (simp split: option.splits)
    qed
  next
    case (ResolveThenable c p)
    then have "shadow_of (run_job j (w\<lparr>microtasks := js\<rparr>)) =
        s_then p (ResolveResult c p) ?s"
      using free by (simp add: shadow_then)
    with o show ?thesis by (simp add: ordered_then_result)
  next
    case (ContinueBlocking a v)
    then have "shadow_of (run_job j (w\<lparr>microtasks := js\<rparr>)) = ?s \<or>
        (\<exists>p. shadow_of (run_job j (w\<lparr>microtasks := js\<rparr>)) =
              s_settle p (Fulfilled (Bool False)) ?s)"
      using free by (auto simp add: shadow_awaitBlocking_continue split: option.splits)
    with o show ?thesis by (auto simp add: ordered_settle)
  next
    case (ContinueAfterWrite c p)
    have s: "s_jobs ?s = j # ?js" and n: "writers [j] = []"
      using sj ContinueAfterWrite by simp_all
    have p: "p \<in> ?W" using g s ContinueAfterWrite by simp
    have "ordered (?s\<lparr>s_jobs := ?js @ []\<rparr>)"
      and "ordered (?s\<lparr>s_jobs := ?js @ [ResumeCaller h p (Fulfilled Null)]\<rparr>)" for h
      using p by (intro ordered_pop_push [OF o s n]; simp)+
    then show ?thesis
      using ContinueAfterWrite by (simp add: shadow_awaitResolve_finish split: option.splits)
  next
    case (ResumeCaller h p st)
    have "s_jobs ?s = ResumeCaller h p st # ?js" using sj ResumeCaller by simp
    from ordered_resume [OF o this] show ?thesis
      using ResumeCaller by (cases st) simp_all
  qed
qed

lemma ordered_step:
  assumes o: "ordered (shadow_of w)"
  shows "ordered (shadow_of (step e w))"
proof (cases e)
  case Tick
  then show ?thesis using o ordered_run_job [OF o] by (simp split: list.splits)
next
  case (Call_awaitResolve c i)
  show ?thesis
  proof (cases "promise w")
    case None
    from shadow_awaitResolve_create [OF None, of c i] ordered_create [OF o, of c]
    show ?thesis using Call_awaitResolve by (simp add: shadow_fields)
  next
    case (Some p)
    from shadow_awaitResolve_join [OF Some, of c i] o
    show ?thesis using Call_awaitResolve by simp
  qed
next
  case (Register path)
  then show ?thesis using o by (simp add: registerFragment_def)
next
  case (ConfigureServer srv)
  then show ?thesis using o by simp
next
  case (BuildStart this)
  then show ?thesis using o by simp
next
  case (TimerFires h)
  then show ?thesis using o
    by (auto simp add: shadow_timeout_callback ordered_settle split: option.splits)
next
  case (ProbeWakes a)
  then show ?thesis using o by simp
next
  case (RaceSettles a r)
  then show ?thesis using o by simp
next
  case (WriteSettles p)
  show ?thesis
  proof (cases "find (\<lambda>(c, q). q = p) (writes w)")
    case None
    with WriteSettles o show ?thesis by simp
  next
    case (Some cq)
    obtain c q where cq: "cq = (c, q)" by (cases cq)
    from Some cq have "q = p" and "(c, p) \<in> set (writes w)"
      by (auto simp add: find_Some_iff) (metis nth_mem)
    then have "(c, p) \<in> set (s_writes (shadow_of w))" by (simp add: shadow_fields)
    from ordered_write_settles [OF o this] show ?thesis
      using WriteSettles Some cq \<open>q = p\<close> o by (auto simp add: shadow_fields)
  qed
qed

lemma ordered_init: "ordered (shadow_of (stylesPlugin base))"
  by (simp add: ordered_def shadow_fields stylesPlugin_def)

lemma ordered_run: "ordered (shadow_of w) \<Longrightarrow> ordered (shadow_of (run evs w))"
  unfolding run_def by (induction evs arbitrary: w) (simp_all add: ordered_step)

lemma written_filter [simp]: "written (filter observable es) = written es"
  by (induction es rule: written.induct) auto

lemma write_before_resume_filter [simp]:
  "write_before_resume (filter observable es) = write_before_resume es"
  by (induction es rule: write_before_resume.induct) auto

lemma write_precedes_resume:
  "write_before_resume (effects (run evs (stylesPlugin base)))"
  using ordered_run [OF ordered_init, of evs base]
  by (simp add: ordered_def shadow_fields)

subsection \<open>The values of the barrier are kept\<close>

lemma values_settle:
  assumes "values_ok s"
  shows "values_ok (s_settle p (Fulfilled (Bool False)) s)"
proof -
  have "set ((s_promises s)[p := Settled (Fulfilled (Bool False))]) \<subseteq>
      insert (Settled (Fulfilled (Bool False))) (set (s_promises s))"
    by (rule set_update_subset_insert)
  with assms show ?thesis
    by (auto simp add: values_ok_def s_settle_def split: pstate.splits)
qed

lemma values_then:
  assumes "values_ok s"
  shows "values_ok (s_then p r s)"
proof (cases "p < length (s_promises s)")
  case False
  with assms show ?thesis by (simp add: s_then_def)
next
  case True
  show ?thesis
  proof (cases "s_promises s ! p")
    case (Pending rs)
    have "set ((s_promises s)[p := Pending (rs @ [r])]) \<subseteq>
      insert (Pending (rs @ [r])) (set (s_promises s))"
      by (rule set_update_subset_insert)
    with assms True Pending show ?thesis
      by (auto simp add: values_ok_def s_then_def)
  next
    case (Settled st)
    with True have "Settled st \<in> set (s_promises s)" by (metis nth_mem)
    with assms have "st = Fulfilled (Bool False)" by (auto simp add: values_ok_def)
    with assms True Settled show ?thesis
      by (auto simp add: values_ok_def s_then_def)
  qed
qed

lemma values_run_job:
  assumes o: "values_ok (shadow_of w)" and m: "microtasks w = j # js"
  shows "values_ok (shadow_of (run_job j (w\<lparr>microtasks := js\<rparr>)))"
proof -
  let ?s = "shadow_of w"
  let ?js = "filter caller_job js"
  have sj: "s_jobs ?s = (if caller_job j then j # ?js else ?js)"
    using m by (simp add: shadow_fields)
  have free: "shadow_of (w\<lparr>microtasks := js\<rparr>) = ?s" if "\<not> caller_job j"
    using that sj by (simp add: shadow_of_def)
  have pop: "values_ok (?s\<lparr>s_jobs := ?js\<rparr>)"
    using o sj by (auto simp add: values_ok_def split: if_splits)
  have jv: "job_value_ok j" if "caller_job j"
    using o sj that by (auto simp add: values_ok_def)
  show ?thesis
  proof (cases j)
    case (Reaction r st)
    show ?thesis
    proof (cases r)
      case (AnyElement a)
      with Reaction have "shadow_of (run_job j (w\<lparr>microtasks := js\<rparr>)) = ?s"
        using free by (simp split: settlement.splits)
      with o show ?thesis by simp
    next
      case (AwaitPromise c p)
      with Reaction jv have "st = Fulfilled (Bool False)" by simp
      with Reaction AwaitPromise pop show ?thesis
        by (auto simp add: shadow_awaitResolve_write values_ok_def)
    next
      case (ResolveResult c p)
      with Reaction jv have "st = Fulfilled (Bool False)" by simp
      with Reaction ResolveResult pop show ?thesis
        by (auto simp add: values_ok_def split: option.splits)
    qed
  next
    case (ResolveThenable c p)
    then have "shadow_of (run_job j (w\<lparr>microtasks := js\<rparr>)) =
        s_then p (ResolveResult c p) ?s"
      using free by (simp add: shadow_then)
    with o show ?thesis by (simp add: values_then)
  next
    case (ContinueBlocking a v)
    then have "shadow_of (run_job j (w\<lparr>microtasks := js\<rparr>)) = ?s \<or>
        (\<exists>p. shadow_of (run_job j (w\<lparr>microtasks := js\<rparr>)) =
              s_settle p (Fulfilled (Bool False)) ?s)"
      using free by (auto simp add: shadow_awaitBlocking_continue split: option.splits)
    with o show ?thesis by (auto simp add: values_settle)
  next
    case (ContinueAfterWrite c p)
    with pop show ?thesis
      by (auto simp add: shadow_awaitResolve_finish values_ok_def split: option.splits)
  next
    case (ResumeCaller h p st)
    with jv have "st = Fulfilled (Bool False) \<or> st = Fulfilled Null" by simp
    with ResumeCaller pop show ?thesis
      by (auto simp add: values_ok_def)
  qed
qed

lemma values_step:
  assumes o: "values_ok (shadow_of w)"
  shows "values_ok (shadow_of (step e w))"
proof (cases e)
  case Tick
  then show ?thesis using o values_run_job [OF o] by (simp split: list.splits)
next
  case (Call_awaitResolve c i)
  show ?thesis
  proof (cases "promise w")
    case None
    from shadow_awaitResolve_create [OF None, of c i] o
    show ?thesis using Call_awaitResolve by (auto simp add: values_ok_def)
  next
    case (Some p)
    from shadow_awaitResolve_join [OF Some, of c i] o
    show ?thesis using Call_awaitResolve by simp
  qed
next
  case (Register path)
  then show ?thesis using o by (simp add: registerFragment_def)
next
  case (ConfigureServer srv)
  then show ?thesis using o by simp
next
  case (BuildStart this)
  then show ?thesis using o by simp
next
  case (TimerFires h)
  then show ?thesis using o
    by (auto simp add: shadow_timeout_callback values_settle split: option.splits)
next
  case (ProbeWakes a)
  then show ?thesis using o by simp
next
  case (RaceSettles a r)
  then show ?thesis using o by simp
next
  case (WriteSettles p)
  then show ?thesis using o
    by (cases "find (\<lambda>(c, q). q = p) (writes w)") (auto simp add: values_ok_def)
qed

lemma values_init: "values_ok (shadow_of (stylesPlugin base))"
  by (simp add: values_ok_def shadow_fields stylesPlugin_def)

lemma values_run: "values_ok (shadow_of w) \<Longrightarrow> values_ok (shadow_of (run evs w))"
  unfolding run_def by (induction evs arbitrary: w) (simp_all add: values_step)

lemma write_before_resume_nth:
  assumes "write_before_resume es"
    and "i < length es" and "rev es ! i = Resumed h p v"
  shows "\<exists>j fs. j < i \<and> rev es ! j = WriteStyles p fs"
  using assms
proof (induction es arbitrary: i)
  case Nil
  then show ?case by simp
next
  case (Cons e es)
  have w: "write_before_resume es"
    using Cons.prems(1) by (cases "(e # es)" rule: write_before_resume.cases) auto
  show ?case
  proof (cases "i < length es")
    case True
    with Cons.prems(3) have "rev es ! i = Resumed h p v" by (simp add: nth_append)
    from Cons.IH [OF w True this] obtain j fs where "j < i" "rev es ! j = WriteStyles p fs"
      by blast
    with True have "j < i \<and> rev (e # es) ! j = WriteStyles p fs" by (simp add: nth_append)
    then show ?thesis by blast
  next
    case False
    with Cons.prems(2) have i: "i = length es" by simp
    with Cons.prems(3) have e: "e = Resumed h p v" by (simp add: nth_append)
    with Cons.prems(1) have "p \<in> set (written es)" by simp
    then have "\<exists>fs. WriteStyles p fs \<in> set es"
      by (induction es rule: written.induct) auto
    then obtain fs where "WriteStyles p fs \<in> set (rev es)" by auto
    then obtain j where "j < length es" "rev es ! j = WriteStyles p fs"
      by (metis in_set_conv_nth length_rev)
    with i have "j < i \<and> rev (e # es) ! j = WriteStyles p fs" by (simp add: nth_append)
    then show ?thesis by blast
  qed
qed

subsection \<open>The barrier\<close>

text \<open>
  C1. In every run of the plugin, from its creation and whatever the host does, each
  resumption of a caller of \<open>awaitResolve\<close> past its \<open>await\<close> comes after the call of
  \<open>writeStyles\<close> of the cycle the caller created or joined: in the history of effects,
  before each \<open>Resumed h p v\<close> there is a \<open>WriteStyles p fs\<close>. The caller that joined is
  resumed when the write has been issued, not when it has finished.
\<close>

theorem write_issued_before_resume:
  "\<forall>i h p v.
     i < length (history (run evs (stylesPlugin base))) \<and>
     history (run evs (stylesPlugin base)) ! i = Resumed h p v \<longrightarrow>
     (\<exists>j fs. j < i \<and> history (run evs (stylesPlugin base)) ! j = WriteStyles p fs)"
  unfolding history_def
  using write_before_resume_nth [OF write_precedes_resume [of evs base]] by simp

theorem write_issued_before_resume_witness:
  "1 < length (history (run quiescent_run (stylesPlugin ''/v''))) \<and>
   history (run quiescent_run (stylesPlugin ''/v'')) ! 1 = Resumed 2 0 (Bool False) \<and>
   (\<exists>j fs. j < 1 \<and> history (run quiescent_run (stylesPlugin ''/v'')) ! j = WriteStyles 0 fs)"
proof -
  have h: "1 < length (history (run quiescent_run (stylesPlugin ''/v''))) \<and>
      history (run quiescent_run (stylesPlugin ''/v'')) ! 1 = Resumed 2 0 (Bool False)"
    by code_simp
  with write_issued_before_resume [of quiescent_run "''/v''"] show ?thesis by blast
qed

text \<open>
  C5. In every run, a promise of the barrier that has settled is fulfilled with
  \<open>false\<close>: none is rejected and none holds another value. No caller of \<open>awaitResolve\<close>
  is thrown into, and a caller that resumes has received \<open>false\<close> (a call that joined
  the cycle) or \<open>null\<close> (the call that ran it), whichever way the cycle ended. The two
  ways it ends, the watchdog's callback and the exit of the loop on a falsy \<open>pending\<close>,
  are the same call \<open>resolve(false)\<close>, which fulfils the pending promise with \<open>false\<close>.
  The write of the styles is taken to succeed, as the interface of the writer says.
\<close>

theorem barrier_resolves_false:
  "(\<forall>q s. q < length (promises (run evs (stylesPlugin base))) \<and>
          promises (run evs (stylesPlugin base)) ! q = Settled s \<longrightarrow>
          s = Fulfilled (Bool False)) \<and>
   (\<forall>h p. Threw h p \<notin> set (effects (run evs (stylesPlugin base)))) \<and>
   (\<forall>h p v. Resumed h p v \<in> set (effects (run evs (stylesPlugin base))) \<longrightarrow>
            v = Bool False \<or> v = Null) \<and>
   timeout_callback w = call_resolve False (emit [ConsoleError] w) \<and>
   (\<not> truthy v \<longrightarrow> awaitBlocking_continue v w = call_resolve False w) \<and>
   (\<forall>p rs. resolve w = Some p \<and> p < length (promises w) \<and> promises w ! p = Pending rs \<longrightarrow>
            promises (call_resolve False w) ! p = Settled (Fulfilled (Bool False)))"
proof -
  let ?w = "run evs (stylesPlugin base)"
  have v: "values_ok (shadow_of ?w)" by (rule values_run [OF values_init])
  have a: "s = Fulfilled (Bool False)"
    if "q < length (promises ?w)" and "promises ?w ! q = Settled s" for q s
  proof -
    from that have "Settled s \<in> set (promises ?w)" by (metis nth_mem)
    then have "caller_part (Settled s) \<in> caller_part ` set (promises ?w)" by (rule imageI)
    then have "caller_part (Settled s) \<in> set (s_promises (shadow_of ?w))"
      by (simp only: shadow_fields set_map)
    with v show ?thesis by (auto simp add: values_ok_def)
  qed
  have b: "effect_value_ok e" if "e \<in> set (effects ?w)" and "observable e" for e
    using v that by (auto simp add: values_ok_def shadow_fields)
  have c: "Threw h p \<notin> set (effects ?w)" for h p
    using b [of "Threw h p"] by auto
  have d: "v = Bool False \<or> v = Null" if "Resumed h p v \<in> set (effects ?w)" for h p v
    using b [OF that] by simp
  have e: "promises (call_resolve False w) ! p = Settled (Fulfilled (Bool False))"
    if "resolve w = Some p" "p < length (promises w)" "promises w ! p = Pending rs" for p rs
    using that by (simp add: call_resolve_def settle_def enqueue_def)
  from a c d e show ?thesis
    by (simp add: timeout_callback_def awaitBlocking_continue_def) blast
qed

theorem barrier_resolves_false_witness:
  "0 < length (promises (run watchdog_run (stylesPlugin ''/v''))) \<and>
   promises (run watchdog_run (stylesPlugin ''/v'')) ! 0 = Settled (Fulfilled (Bool False)) \<and>
   promises (run quiescent_run (stylesPlugin ''/v'')) ! 0 = Settled (Fulfilled (Bool False)) \<and>
   Resumed 2 0 (Bool False) \<in> set (effects (run watchdog_run (stylesPlugin ''/v''))) \<and>
   Resumed 1 0 Null \<in> set (effects (run watchdog_run (stylesPlugin ''/v''))) \<and>
   Threw 2 0 \<notin> set (effects (run watchdog_run (stylesPlugin ''/v'')))"
proof -
  have h: "0 < length (promises (run watchdog_run (stylesPlugin ''/v''))) \<and>
      promises (run watchdog_run (stylesPlugin ''/v'')) ! 0 = Settled (Fulfilled (Bool False)) \<and>
      promises (run quiescent_run (stylesPlugin ''/v'')) ! 0 = Settled (Fulfilled (Bool False)) \<and>
      Resumed 2 0 (Bool False) \<in> set (effects (run watchdog_run (stylesPlugin ''/v''))) \<and>
      Resumed 1 0 Null \<in> set (effects (run watchdog_run (stylesPlugin ''/v'')))"
    by code_simp
  with barrier_resolves_false [of watchdog_run "''/v''"] show ?thesis by blast
qed

subsection \<open>One settle cycle at a time\<close>

lemma awaitResolve_join:
  assumes "promise w = Some p"
  shows "awaitResolve c i w =
           enqueue [ResolveThenable c p]
             (case i of
                None \<Rightarrow> w
              | Some x \<Rightarrow> if x = [] then w
                          else w\<lparr>blockingModules := set_add x (blockingModules w)\<rparr>)"
  using assms by (simp add: awaitResolve_def Let_def split: option.splits)

lemma set_set_add: "set (set_add x xs) = insert x (set xs)"
  by (auto simp add: set_add_def)

lemma awaitResolve_calls_join:
  assumes "promise w = Some p"
  shows "promise (fold (\<lambda>(c, i). awaitResolve c i) calls w) = Some p \<and>
         promises (fold (\<lambda>(c, i). awaitResolve c i) calls w) = promises w \<and>
         resolve (fold (\<lambda>(c, i). awaitResolve c i) calls w) = resolve w \<and>
         timers (fold (\<lambda>(c, i). awaitResolve c i) calls w) = timers w \<and>
         next_timer (fold (\<lambda>(c, i). awaitResolve c i) calls w) = next_timer w \<and>
         anys (fold (\<lambda>(c, i). awaitResolve c i) calls w) = anys w \<and>
         next_any (fold (\<lambda>(c, i). awaitResolve c i) calls w) = next_any w \<and>
         sleeping (fold (\<lambda>(c, i). awaitResolve c i) calls w) = sleeping w \<and>
         racing (fold (\<lambda>(c, i). awaitResolve c i) calls w) = racing w \<and>
         effects (fold (\<lambda>(c, i). awaitResolve c i) calls w) = effects w \<and>
         microtasks (fold (\<lambda>(c, i). awaitResolve c i) calls w) =
           microtasks w @ map (\<lambda>(c, i). ResolveThenable c p) calls \<and>
         set (blockingModules (fold (\<lambda>(c, i). awaitResolve c i) calls w)) =
           set (blockingModules w) \<union> {x. x \<noteq> [] \<and> (\<exists>c. (c, Some x) \<in> set calls)}"
  using assms
proof (induction calls arbitrary: w)
  case Nil
  then show ?case by simp
next
  case (Cons a calls)
  obtain c i where a: "a = (c, i)" by (cases a)
  let ?w = "awaitResolve c i w"
  have j: "?w = enqueue [ResolveThenable c p]
             (case i of
                None \<Rightarrow> w
              | Some x \<Rightarrow> if x = [] then w
                          else w\<lparr>blockingModules := set_add x (blockingModules w)\<rparr>)"
    using Cons.prems by (rule awaitResolve_join)
  have p: "promise ?w = Some p"
    using Cons.prems by (simp add: j enqueue_def split: option.splits)
  have f: "promises ?w = promises w" "resolve ?w = resolve w" "timers ?w = timers w"
    "next_timer ?w = next_timer w" "anys ?w = anys w" "next_any ?w = next_any w"
    "sleeping ?w = sleeping w" "racing ?w = racing w" "effects ?w = effects w"
    "microtasks ?w = microtasks w @ [ResolveThenable c p]"
    by (simp_all add: j enqueue_def split: option.splits)
  have b: "set (blockingModules ?w) =
      set (blockingModules w) \<union>
        (case i of None \<Rightarrow> {} | Some x \<Rightarrow> if x = [] then {} else {x})"
    by (simp add: j enqueue_def set_set_add split: option.splits)
  from Cons.IH [OF p] show ?case
    unfolding a by (simp add: f b split: option.splits) blast+
qed

lemma sum_list_update_nat:
  fixes xs :: "nat list"
  shows "k < length xs \<Longrightarrow> sum_list (xs[k := x]) + xs ! k = sum_list xs + x"
proof (induction xs arbitrary: k)
  case Nil
  then show ?case by simp
next
  case (Cons a xs)
  then show ?case by (cases k) (simp_all add: add.assoc add.left_commute)
qed

lemma tokens_store_update:
  assumes "p < length ps"
  shows "sum_list (map (tokens_promise q) (ps[p := x])) + tokens_promise q (ps ! p) =
         sum_list (map (tokens_promise q) ps) + tokens_promise q x"
  using sum_list_update_nat [of p "map (tokens_promise q) ps" "tokens_promise q x"] assms
  by (simp add: map_update)

lemma filter_token_job_map [simp]:
  "filter (token_job q \<circ> (\<lambda>r. Reaction r st)) rs = filter (token_reaction q) rs"
  by (rule filter_cong) simp_all

lemma tokens_settle: "tokens q (s_settle p st s) = tokens q s"
proof (cases "p < length (s_promises s)")
  case False
  then show ?thesis by (simp add: s_settle_def)
next
  case True
  show ?thesis
  proof (cases "s_promises s ! p")
    case (Settled x)
    with True show ?thesis by (simp add: s_settle_def)
  next
    case (Pending rs)
    from tokens_store_update [OF True, of q "Settled st"] Pending
    have "sum_list (map (tokens_promise q) ((s_promises s)[p := Settled st])) +
        length (filter (token_reaction q) rs) = sum_list (map (tokens_promise q) (s_promises s))"
      by simp
    with True Pending show ?thesis
      by (simp add: s_settle_def tokens_def)
  qed
qed

lemma single_cycle_settle:
  assumes "single_cycle cur s"
  shows "single_cycle cur (s_settle p st s)"
proof -
  have "is_pending (s_promises (s_settle p st s) ! q) \<longrightarrow> is_pending (s_promises s ! q)"
    if "q < length (s_promises s)" for q
    using that by (auto simp add: s_settle_def nth_list_update split: pstate.splits)
  moreover have "length (s_promises (s_settle p st s)) = length (s_promises s)"
    by (simp add: s_settle_def split: pstate.splits)
  ultimately show ?thesis
    using assms by (simp add: single_cycle_def tokens_settle)
qed

lemma tokens_then_result: "tokens q (s_then p (ResolveResult c p') s) = tokens q s"
proof (cases "p < length (s_promises s)")
  case False
  then show ?thesis by (simp add: s_then_def)
next
  case True
  show ?thesis
  proof (cases "s_promises s ! p")
    case (Settled x)
    with True show ?thesis by (simp add: s_then_def tokens_def)
  next
    case (Pending rs)
    from tokens_store_update [OF True, of q "Pending (rs @ [ResolveResult c p'])"] Pending
    have "sum_list (map (tokens_promise q) ((s_promises s)[p := Pending (rs @ [ResolveResult c p'])])) =
        sum_list (map (tokens_promise q) (s_promises s))"
      by simp
    with True Pending show ?thesis
      by (simp add: s_then_def tokens_def)
  qed
qed

lemma single_cycle_then_result:
  assumes "single_cycle cur s"
  shows "single_cycle cur (s_then p (ResolveResult c p') s)"
proof -
  have "is_pending (s_promises (s_then p (ResolveResult c p') s) ! q) \<longrightarrow>
      is_pending (s_promises s ! q)"
    if "q < length (s_promises s)" for q
    using that by (auto simp add: s_then_def nth_list_update split: pstate.splits)
  moreover have "length (s_promises (s_then p (ResolveResult c p') s)) = length (s_promises s)"
    by (simp add: s_then_def split: pstate.splits)
  ultimately show ?thesis
    using assms by (simp add: single_cycle_def tokens_then_result)
qed


lemma single_cycle_create:
  assumes "single_cycle None s"
  shows "single_cycle (Some (length (s_promises s)))
           (s\<lparr>s_promises := s_promises s @ [Pending [AwaitPromise c (length (s_promises s))]]\<rparr>)"
  using assms by (auto simp add: single_cycle_def tokens_def nth_append)

lemma single_cycle_effects [simp]:
  "single_cycle cur (s\<lparr>s_effects := es\<rparr>) = single_cycle cur s"
  by (simp add: single_cycle_def tokens_def)

lemma single_cycle_same:
  assumes "single_cycle cur s"
    and "s_promises s' = s_promises s"
    and "\<And>q. tokens q s' = tokens q s"
  shows "single_cycle cur s'"
  using assms by (simp add: single_cycle_def)

lemma single_cycle_write:
  assumes sc: "single_cycle cur s"
    and j: "s_jobs s = Reaction (AwaitPromise c p) (Fulfilled v) # js"
  shows "single_cycle cur (s\<lparr>s_jobs := js, s_effects := es,
                             s_writes := s_writes s @ [(c, p)]\<rparr>)"
proof (rule single_cycle_same [OF sc])
  show "tokens q (s\<lparr>s_jobs := js, s_effects := es, s_writes := s_writes s @ [(c, p)]\<rparr>) =
      tokens q s" for q
    using j by (cases "q = p") (simp_all add: tokens_def)
qed simp

lemma single_cycle_pop_push:
  assumes "single_cycle cur s" and "s_jobs s = j # js"
    and "\<forall>q. \<not> token_job q j" and "\<forall>x \<in> set xs. \<forall>q. \<not> token_job q x"
  shows "single_cycle cur (s\<lparr>s_jobs := js @ xs\<rparr>)"
proof -
  have "filter (token_job q) xs = []" for q
    using assms(4) by (simp add: filter_empty_conv)
  with assms(1-3) show ?thesis by (simp add: single_cycle_def tokens_def)
qed

lemma single_cycle_finish:
  assumes o: "ordered s" and sc: "single_cycle cur s"
    and j: "s_jobs s = ContinueAfterWrite c p # js"
    and x: "\<forall>x \<in> set xs. \<forall>q. \<not> token_job q x"
  shows "single_cycle None (s\<lparr>s_jobs := js @ xs\<rparr>)"
proof -
  have fx: "filter (token_job q) xs = []" for q
    using x by (simp add: filter_empty_conv)
  have "tokens p s \<ge> 1" using j by (simp add: tokens_def)
  with sc have cur: "cur = Some p" and t: "tokens p s = 1"
    by (auto simp add: single_cycle_def split: if_splits)
  have zero: "tokens q (s\<lparr>s_jobs := js @ xs\<rparr>) = 0" for q
  proof (cases "q = p")
    case True
    with t j fx show ?thesis by (simp add: tokens_def)
  next
    case False
    with sc cur have "tokens q s = 0" by (simp add: single_cycle_def)
    with False j fx show ?thesis by (simp add: tokens_def)
  qed
  have "\<not> is_pending (s_promises s ! q)" if q: "q < length (s_promises s)" for q
  proof
    assume pe: "is_pending (s_promises s ! q)"
    with sc q cur have qp: "q = p" by (simp add: single_cycle_def)
    from pe obtain rs where rs: "s_promises s ! q = Pending rs"
      by (cases "s_promises s ! q") auto
    with o q have "creator_first q rs"
      unfolding ordered_def by (metis promise_ok.simps(1))
    then have "tokens_promise q (Pending rs) \<ge> 1"
      by (cases "(q, rs)" rule: creator_first.cases) auto
    moreover have "tokens_promise q (s_promises s ! q) \<le>
        sum_list (map (tokens_promise q) (s_promises s))"
      using q by (intro member_le_sum_list) simp_all
    ultimately have "sum_list (map (tokens_promise q) (s_promises s)) \<ge> 1"
      using rs by simp
    with j qp have "tokens p s \<ge> 2" by (simp add: tokens_def)
    with t show False by simp
  qed
  with zero show ?thesis by (simp add: single_cycle_def)
qed

lemma single_cycle_write_settles:
  assumes sc: "single_cycle cur s" and m: "(c, p) \<in> set (s_writes s)"
  shows "single_cycle cur (s\<lparr>s_writes := filter (\<lambda>(c, q). q \<noteq> p) (s_writes s),
                             s_jobs := s_jobs s @ [ContinueAfterWrite c p]\<rparr>)"
proof (rule single_cycle_same [OF sc])
  define A where "A = sum_list (map (tokens_promise p) (s_promises s))"
  define B where "B = length (filter (token_job p) (s_jobs s))"
  define C where "C = length (filter (\<lambda>(c, q). q = p) (s_writes s))"
  have "filter (\<lambda>(c, q). q = p) (s_writes s) \<noteq> []"
    using m by (auto simp add: filter_empty_conv)
  then have ge: "C \<ge> 1" unfolding C_def by (cases "filter (\<lambda>(c, q). q = p) (s_writes s)") auto
  have "tokens p s \<le> 1" using sc by (simp add: single_cycle_def)
  then have "A + B + C \<le> 1" by (simp add: tokens_def A_def B_def C_def)
  with ge have abc: "A = 0" "B = 0" "C = 1" by simp_all
  have gone: "filter (\<lambda>(c, q'). q' = p) (filter (\<lambda>(c, q). q \<noteq> p) (s_writes s)) = []"
    by (auto simp add: filter_empty_conv)
  have kept: "filter (\<lambda>(c, q'). q' = q) (filter (\<lambda>(c, q). q \<noteq> p) (s_writes s)) =
      filter (\<lambda>(c, q'). q' = q) (s_writes s)" if "q \<noteq> p" for q
    using that by (auto intro: filter_cong)
  show "tokens q (s\<lparr>s_writes := filter (\<lambda>(c, q). q \<noteq> p) (s_writes s),
                             s_jobs := s_jobs s @ [ContinueAfterWrite c p]\<rparr>) = tokens q s" for q
  proof (cases "q = p")
    case True
    have "tokens p (s\<lparr>s_writes := filter (\<lambda>(c, q). q \<noteq> p) (s_writes s),
                             s_jobs := s_jobs s @ [ContinueAfterWrite c p]\<rparr>) = A + (B + 1) + 0"
      by (simp add: tokens_def A_def B_def gone del: filter_filter)
    moreover have "tokens p s = A + B + C" by (simp add: tokens_def A_def B_def C_def)
    ultimately show ?thesis using abc True by simp
  next
    case False
    then show ?thesis by (simp add: tokens_def kept del: filter_filter)
  qed
qed simp

lemma promise_basic [simp]:
  "promise (enqueue js w) = promise w"
  "promise (emit es w) = promise w"
  "promise (then_promise p r w) = promise w"
  "promise (settle p s w) = promise w"
  "promise (clearTimeout h w) = promise w"
  "promise (setTimeout w) = promise w"
  by (simp_all add: enqueue_def emit_def then_promise_def settle_def clearTimeout_def
      setTimeout_def split: option.splits pstate.splits)

lemma promise_ops [simp]:
  "promise (snd (getPendingModules a w)) = promise w"
  "promise (call_resolve v w) = promise w"
  "promise (probe_wakes a w) = promise w"
  "promise (race_settles a r w) = promise w"
  "promise (awaitResolve_write c p w) = promise w"
  "promise (awaitResolve_finish c p w) = None"
  by (simp_all add: getPendingModules_def call_resolve_def probe_wakes_def race_settles_def
      awaitResolve_write_def awaitResolve_finish_def Let_def
      split: option.splits probe.splits)

lemma promise_awaitBlocking [simp]: "promise (awaitBlocking w) = promise w"
  by (simp add: awaitBlocking_def Let_def split_def split: option.splits)

lemma promise_loop [simp]:
  "promise (awaitBlocking_continue v w) = promise w"
  "promise (timeout_callback w) = promise w"
  by (simp_all add: awaitBlocking_continue_def timeout_callback_def)

lemma promise_awaitResolve:
  "promise (awaitResolve c i w) =
     (case promise w of None \<Rightarrow> Some (length (promises w)) | Some p \<Rightarrow> Some p)"
  by (simp add: awaitResolve_def Let_def split: option.splits)

lemma single_run_job:
  assumes o: "ordered (shadow_of w)" and v: "values_ok (shadow_of w)"
    and sc: "single_cycle (promise w) (shadow_of w)"
    and m: "microtasks w = j # js"
  shows "single_cycle (promise (run_job j (w\<lparr>microtasks := js\<rparr>)))
           (shadow_of (run_job j (w\<lparr>microtasks := js\<rparr>)))"
proof -
  let ?s = "shadow_of w"
  let ?js = "filter caller_job js"
  have sj: "s_jobs ?s = (if caller_job j then j # ?js else ?js)"
    using m by (simp add: shadow_fields)
  have free: "shadow_of (w\<lparr>microtasks := js\<rparr>) = ?s" if "\<not> caller_job j"
    using that sj by (simp add: shadow_of_def)
  have jv: "job_value_ok j" if "caller_job j"
    using v sj that by (auto simp add: values_ok_def)
  show ?thesis
  proof (cases j)
    case (Reaction r st)
    show ?thesis
    proof (cases r)
      case (AnyElement a)
      with Reaction have "shadow_of (run_job j (w\<lparr>microtasks := js\<rparr>)) = ?s"
        using free by (simp split: settlement.splits)
      moreover from Reaction AnyElement have "promise (run_job j (w\<lparr>microtasks := js\<rparr>)) = promise w"
        by (simp split: settlement.splits)
      ultimately show ?thesis using sc by simp
    next
      case (AwaitPromise c p)
      with Reaction jv have st: "st = Fulfilled (Bool False)" by simp
      have "s_jobs ?s = Reaction (AwaitPromise c p) (Fulfilled (Bool False)) # ?js"
        using sj Reaction AwaitPromise st by simp
      from single_cycle_write [OF sc this] show ?thesis
        using Reaction AwaitPromise st by (simp add: shadow_awaitResolve_write)
    next
      case (ResolveResult c p)
      have s: "s_jobs ?s = j # ?js" and n: "\<forall>q. \<not> token_job q j"
        using sj Reaction ResolveResult by simp_all
      have "single_cycle (promise w) (?s\<lparr>s_jobs := ?js @ []\<rparr>)"
        and "single_cycle (promise w) (?s\<lparr>s_jobs := ?js @ [ResumeCaller h p st]\<rparr>)" for h
        by (intro single_cycle_pop_push [OF sc s n]; simp)+
      then show ?thesis
        using Reaction ResolveResult by (simp split: option.splits)
    qed
  next
    case (ResolveThenable c p)
    then have "shadow_of (run_job j (w\<lparr>microtasks := js\<rparr>)) =
        s_then p (ResolveResult c p) ?s"
      using free by (simp add: shadow_then)
    with sc ResolveThenable show ?thesis by (simp add: single_cycle_then_result)
  next
    case (ContinueBlocking a v)
    then have "shadow_of (run_job j (w\<lparr>microtasks := js\<rparr>)) = ?s \<or>
        (\<exists>p. shadow_of (run_job j (w\<lparr>microtasks := js\<rparr>)) =
              s_settle p (Fulfilled (Bool False)) ?s)"
      using free by (auto simp add: shadow_awaitBlocking_continue split: option.splits)
    with sc ContinueBlocking show ?thesis by (auto simp add: single_cycle_settle)
  next
    case (ContinueAfterWrite c p)
    have s: "s_jobs ?s = ContinueAfterWrite c p # ?js"
      using sj ContinueAfterWrite by simp
    have "single_cycle None (?s\<lparr>s_jobs := ?js @ []\<rparr>)"
      and "single_cycle None (?s\<lparr>s_jobs := ?js @ [ResumeCaller h p (Fulfilled Null)]\<rparr>)" for h
      by (intro single_cycle_finish [OF o sc s]; simp)+
    then show ?thesis
      using ContinueAfterWrite by (simp add: shadow_awaitResolve_finish split: option.splits)
  next
    case (ResumeCaller h p st)
    have s: "s_jobs ?s = j # ?js" and n: "\<forall>q. \<not> token_job q j"
      using sj ResumeCaller by simp_all
    from single_cycle_pop_push [OF sc s n, of "[]"] show ?thesis
      using ResumeCaller by simp
  qed
qed

lemma single_step:
  assumes o: "ordered (shadow_of w)" and v: "values_ok (shadow_of w)"
    and sc: "single_cycle (promise w) (shadow_of w)"
  shows "single_cycle (promise (step e w)) (shadow_of (step e w))"
proof (cases e)
  case Tick
  then show ?thesis using sc single_run_job [OF o v sc] by (simp split: list.splits)
next
  case (Call_awaitResolve c i)
  show ?thesis
  proof (cases "promise w")
    case None
    from sc None have "single_cycle None (shadow_of w)" by simp
    from single_cycle_create [OF this, of c] shadow_awaitResolve_create [OF None, of c i]
    show ?thesis using Call_awaitResolve None
      by (simp add: shadow_fields promise_awaitResolve)
  next
    case (Some p)
    from shadow_awaitResolve_join [OF Some, of c i] sc
    show ?thesis using Call_awaitResolve Some by (simp add: promise_awaitResolve)
  qed
next
  case (Register path)
  then show ?thesis using sc by (simp add: registerFragment_def)
next
  case (ConfigureServer srv)
  then show ?thesis using sc by simp
next
  case (BuildStart this)
  then show ?thesis using sc by simp
next
  case (TimerFires h)
  then show ?thesis using sc
    by (auto simp add: shadow_timeout_callback single_cycle_settle split: option.splits)
next
  case (ProbeWakes a)
  then show ?thesis using sc by simp
next
  case (RaceSettles a r)
  then show ?thesis using sc by simp
next
  case (WriteSettles p)
  show ?thesis
  proof (cases "find (\<lambda>(c, q). q = p) (writes w)")
    case None
    with WriteSettles sc show ?thesis by simp
  next
    case (Some cq)
    obtain c q where cq: "cq = (c, q)" by (cases cq)
    from Some cq have "q = p" and "(c, p) \<in> set (writes w)"
      by (auto simp add: find_Some_iff) (metis nth_mem)
    then have "(c, p) \<in> set (s_writes (shadow_of w))" by (simp add: shadow_fields)
    from single_cycle_write_settles [OF sc this] show ?thesis
      using WriteSettles Some cq \<open>q = p\<close> by (auto simp add: shadow_fields)
  qed
qed

lemma single_init: "single_cycle (promise (stylesPlugin base)) (shadow_of (stylesPlugin base))"
  by (simp add: single_cycle_def tokens_def shadow_fields stylesPlugin_def)

lemma single_run:
  assumes "ordered (shadow_of w)" and "values_ok (shadow_of w)"
    and "single_cycle (promise w) (shadow_of w)"
  shows "single_cycle (promise (run evs w)) (shadow_of (run evs w))"
  using assms unfolding run_def
  by (induction evs arbitrary: w) (simp_all add: single_step ordered_step values_step)

lemma one_pending_promise:
  assumes "q < length (promises (run evs (stylesPlugin base)))"
    and "promises (run evs (stylesPlugin base)) ! q = Pending rs"
  shows "promise (run evs (stylesPlugin base)) = Some q"
proof -
  let ?w = "run evs (stylesPlugin base)"
  have "single_cycle (promise ?w) (shadow_of ?w)"
    by (rule single_run [OF ordered_init values_init single_init])
  moreover have "is_pending (s_promises (shadow_of ?w) ! q)"
    using assms by (simp add: shadow_fields)
  ultimately show ?thesis using assms(1) by (simp add: single_cycle_def shadow_fields)
qed

text \<open>
  C2. In every run at most one settle cycle is active: a promise of the barrier that
  is pending is the one \<open>promise\<close> holds. And while \<open>promise\<close> holds the promise \<open>p\<close> of a
  cycle, calls of \<open>awaitResolve\<close> leave \<open>promise\<close> and the store of promises as they are
  (no promise is created), and leave the timers, the \<open>Promise.any\<close> subscriptions, the
  probes and the effects as they are (no loop is started). Each call adds its id, when
  it is given and not empty, to \<open>blockingModules\<close>, and returns \<open>p\<close> itself: the queue
  gains one job for each call, by which the call's result adopts \<open>p\<close>.
\<close>

theorem awaitResolve_joins_cycle:
  assumes "promise w = Some p"
  shows "promise (awaitResolve_calls calls w) = Some p \<and>
         promises (awaitResolve_calls calls w) = promises w \<and>
         resolve (awaitResolve_calls calls w) = resolve w \<and>
         timers (awaitResolve_calls calls w) = timers w \<and>
         next_timer (awaitResolve_calls calls w) = next_timer w \<and>
         anys (awaitResolve_calls calls w) = anys w \<and>
         next_any (awaitResolve_calls calls w) = next_any w \<and>
         sleeping (awaitResolve_calls calls w) = sleeping w \<and>
         racing (awaitResolve_calls calls w) = racing w \<and>
         effects (awaitResolve_calls calls w) = effects w \<and>
         microtasks (awaitResolve_calls calls w) =
           microtasks w @ map (\<lambda>(c, i). ResolveThenable c p) calls \<and>
         set (blockingModules (awaitResolve_calls calls w)) =
           set (blockingModules w) \<union> {x. x \<noteq> [] \<and> (\<exists>c. (c, Some x) \<in> set calls)} \<and>
         (\<forall>q rs. q < length (promises (run evs (stylesPlugin base))) \<and>
                 promises (run evs (stylesPlugin base)) ! q = Pending rs \<longrightarrow>
                 promise (run evs (stylesPlugin base)) = Some q)"
  unfolding awaitResolve_calls_def
  using awaitResolve_calls_join [OF assms, of calls] one_pending_promise [of _ evs base]
  by blast

theorem awaitResolve_joins_cycle_witness:
  "promise (run [Call_awaitResolve (Some 1) (Some ''/src/a.scss'')] (stylesPlugin ''/v'')) =
     Some 0 \<and>
   promises (run [Call_awaitResolve (Some 1) (Some ''/src/a.scss'')] (stylesPlugin ''/v'')) ! 0 =
     Pending [AnyElement 0, AwaitPromise (Some 1) 0] \<and>
   promise (awaitResolve_calls [(Some 2, Some ''/src/b.scss''), (None, None)]
     (run [Call_awaitResolve (Some 1) (Some ''/src/a.scss'')] (stylesPlugin ''/v''))) =
     Some 0 \<and>
   microtasks (awaitResolve_calls [(Some 2, Some ''/src/b.scss''), (None, None)]
     (run [Call_awaitResolve (Some 1) (Some ''/src/a.scss'')] (stylesPlugin ''/v''))) =
     [ResolveThenable (Some 2) 0, ResolveThenable None 0] \<and>
   promises (awaitResolve_calls [(Some 2, Some ''/src/b.scss''), (None, None)]
     (run [Call_awaitResolve (Some 1) (Some ''/src/a.scss'')] (stylesPlugin ''/v''))) =
     [Pending [AnyElement 0, AwaitPromise (Some 1) 0]]"
proof -
  let ?w = "run [Call_awaitResolve (Some 1) (Some ''/src/a.scss'')] (stylesPlugin ''/v'')"
  have m: "microtasks ?w = []"
    and s: "promises ?w = [Pending [AnyElement 0, AwaitPromise (Some 1) 0]]"
    by (simp_all add: run_def awaitResolve_def stylesPlugin_def awaitBlocking_def setTimeout_def
        clearTimeout_def getPendingModules_def then_promise_def set_add_def Let_def)
  have q: "0 < length (promises ?w) \<and>
      promises ?w ! 0 = Pending [AnyElement 0, AwaitPromise (Some 1) 0]"
    using s by simp
  have "\<forall>q rs. q < length (promises ?w) \<and> promises ?w ! q = Pending rs \<longrightarrow>
      promise ?w = Some q"
    using awaitResolve_joins_cycle [of "stylesPlugin ''/v''\<lparr>promise := Some 0\<rparr>" 0 "[]"
        "[Call_awaitResolve (Some 1) (Some ''/src/a.scss'')]" "''/v''"]
    by simp
  with q have h: "promise ?w = Some 0" by blast
  from awaitResolve_joins_cycle [OF h, of "[(Some 2, Some ''/src/b.scss''), (None, None)]"] h m s
  show ?thesis by simp
qed

end
